theory Spec2Isabelle
  imports Main "HOL-Library.Word" "HOL-Library.AList"
begin

unbundle bit_operations_syntax

section \<open>Errors\<close>

text \<open>
  Every \<^verbatim>\<open>throw\<close> of the sources is a value. All of them are \<^verbatim>\<open>ProseError\<close>s
  but the \<^verbatim>\<open>TypeError\<close> of \<^verbatim>\<open>hash\<close>; a constructor stands for one throw site and
  keeps the values the message is built from. \<open>ReadOfUndefined\<close> and
  \<open>CannotConvertToPrimitive\<close> are the \<^verbatim>\<open>TypeError\<close>s the language itself throws: on
  reading a property of \<^verbatim>\<open>undefined\<close>, and on turning into a string an object that
  has no callable \<^verbatim>\<open>toString\<close> or \<^verbatim>\<open>valueOf\<close> giving a primitive. \<open>CallbackError\<close>
  is whatever a callback supplied by the caller throws.
\<close>

datatype error =
    LengthNotPositiveInteger
  | DuplicateUniqueId string string
  | SchemaAlreadyDefined string
  | TagAlreadyDefined string
  | MissingSchema string
  | UniqueAlreadyAssigned string
  | UniqueTagMismatch string string string
  | ReadOfUndefined
  | CannotConvertToPrimitive
  | CallbackError string

fun is_TypeError :: "error \<Rightarrow> bool" where
  "is_TypeError LengthNotPositiveInteger = True"
| "is_TypeError ReadOfUndefined = True"
| "is_TypeError CannotConvertToPrimitive = True"
| "is_TypeError _ = False"

section \<open>utils/hash.ts: string to base62 hash\<close>

text \<open>
  The \<^verbatim>\<open>length\<close> argument is a JavaScript number. \<open>NonInteger\<close> stands for every
  number on which \<^verbatim>\<open>Number.isInteger\<close> is false: fractions, \<^verbatim>\<open>NaN\<close> and the
  infinities.
\<close>

datatype number = Integer int | NonInteger

definition ALPHABET :: string where
  "ALPHABET = ''0123456789ABCDEFGHIJKLMNOPQRSTUVWXYZabcdefghijklmnopqrstuvwxyz''"

definition ALPHABET_LEN :: nat where
  "ALPHABET_LEN = 62"

text \<open>\<^verbatim>\<open>String.prototype.charAt\<close>: the empty string out of range.\<close>

definition charAt :: "string \<Rightarrow> nat \<Rightarrow> string" where
  "charAt s i = (if i < length s then [s ! i] else [])"

text \<open>
  One round of the FNV-1a loop body after the xor: the multiplication by the FNV prime
  16777619 written as shifts and adds, reduced by \<^verbatim>\<open>>>> 0\<close> (here: in \<open>32 word\<close>).
\<close>

definition fnv_mul :: "32 word \<Rightarrow> 32 word" where
  "fnv_mul h = h + (push_bit 1 h + push_bit 4 h + push_bit 7 h + push_bit 8 h + push_bit 24 h)"

text \<open>The string is given by its UTF-16 code units (\<^verbatim>\<open>charCodeAt\<close>).\<close>

fun fnv1a32_from :: "32 word \<Rightarrow> nat list \<Rightarrow> 32 word" where
  "fnv1a32_from h [] = h"
| "fnv1a32_from h (c # cs) = fnv1a32_from (fnv_mul (h XOR of_nat c)) cs"

definition fnv1a32 :: "nat list \<Rightarrow> 32 word" where
  "fnv1a32 str = fnv1a32_from 0x811c9dc5 str"

text \<open>The generator's state after \<^verbatim>\<open>makeXorShift32(seed)\<close>, and one call of it.\<close>

definition makeXorShift32 :: "32 word \<Rightarrow> 32 word" where
  "makeXorShift32 seed = (if seed = 0 then 1 else seed)"

definition nextUint32 :: "32 word \<Rightarrow> 32 word" where
  "nextUint32 x =
     (let x1 = x XOR push_bit 13 x;
          x2 = x1 XOR drop_bit 17 x1;
          x3 = x2 XOR push_bit 5 x2
      in x3)"

definition MAX_UINT32 :: nat where
  "MAX_UINT32 = 0xffffffff"

definition acceptBound :: nat where
  "acceptBound = ((MAX_UINT32 + 1) div ALPHABET_LEN) * ALPHABET_LEN"

lemma acceptBound_eq: "acceptBound = 4294967292"
  by (simp add: acceptBound_def MAX_UINT32_def ALPHABET_LEN_def)

lemma rejected_cases:
  assumes "acceptBound \<le> unat (r :: 32 word)"
  shows "r = 0xFFFFFFFC \<or> r = 0xFFFFFFFD \<or> r = 0xFFFFFFFE \<or> r = 0xFFFFFFFF"
proof -
  have lt: "unat r < 4294967296"
    using unsigned_less [of r, where ?'a = nat] by simp
  from assms have ge: "4294967292 \<le> unat r"
    by (simp add: acceptBound_eq)
  from lt ge have "unat r = 4294967292 \<or> unat r = 4294967293
      \<or> unat r = 4294967294 \<or> unat r = 4294967295"
    by arith
  moreover have "r = of_nat (unat r)"
    by simp
  ultimately have "r = of_nat 4294967292 \<or> r = of_nat 4294967293
      \<or> r = of_nat 4294967294 \<or> r = of_nat 4294967295"
    by metis
  then show ?thesis
    by simp
qed

lemma next_after_rejected:
  assumes "acceptBound \<le> unat (r :: 32 word)"
  shows "unat (nextUint32 r) < acceptBound"
  using rejected_cases [OF assms]
  by (auto simp: nextUint32_def acceptBound_eq Let_def)


text \<open>
  Rejection sampling: \<^verbatim>\<open>let r = nextUint32(); while (r >= acceptBound) r = nextUint32();\<close>.
  The generator's state after the loop is the accepted \<open>r\<close> itself. The loop ends because
  the four rejected values are all sent to accepted ones.
\<close>

function draw :: "32 word \<Rightarrow> 32 word" where
  "draw x = (let r = nextUint32 x in if acceptBound \<le> unat r then draw r else r)"
  by pat_completeness auto
termination
proof (relation "measure (\<lambda>x. if acceptBound \<le> unat (nextUint32 x) then 1 else 0)")
  show "wf (measure (\<lambda>x::32 word. if acceptBound \<le> unat (nextUint32 x) then 1 else 0))"
    by simp
next
  fix x r :: "32 word"
  assume "r = nextUint32 x" and "acceptBound \<le> unat r"
  then show "(r, x) \<in> measure (\<lambda>x. if acceptBound \<le> unat (nextUint32 x) then 1 else 0)"
    using next_after_rejected [of r] by simp
qed

declare draw.simps [simp del]

text \<open>The outer loop \<^verbatim>\<open>while (out.length < length)\<close>, on the generator's state.\<close>

function hash_loop :: "32 word \<Rightarrow> string \<Rightarrow> int \<Rightarrow> string" where
  "hash_loop x out len =
     (if int (length out) < len
      then (let r = draw x; idx = unat r mod ALPHABET_LEN
            in hash_loop r (out @ charAt ALPHABET idx) len)
      else out)"
  by pat_completeness auto
termination
proof (relation "measure (\<lambda>(x, out, len). nat (len - int (length out)))")
  show "wf (measure (\<lambda>(x::32 word, out::string, len). nat (len - int (length out))))"
    by simp
next
  fix x :: "32 word" and out :: string and len :: int and r idx
  assume "int (length out) < len" and "r = draw x" and "idx = unat r mod ALPHABET_LEN"
  then show "((r, out @ charAt ALPHABET idx, len), (x, out, len))
      \<in> measure (\<lambda>(x, out, len). nat (len - int (length out)))"
    by (simp add: charAt_def ALPHABET_def ALPHABET_LEN_def)
qed

declare hash_loop.simps [simp del]

definition hash_units :: "nat list \<Rightarrow> number \<Rightarrow> error + string" where
  "hash_units input len =
     (case len of
        NonInteger \<Rightarrow> Inl LengthNotPositiveInteger
      | Integer n \<Rightarrow>
          if n \<le> 0 then Inl LengthNotPositiveInteger
          else Inr (hash_loop (makeXorShift32 (fnv1a32 input)) [] n))"

text \<open>On a \<open>string\<close>, whose characters are their own code units.\<close>

definition hash :: "string \<Rightarrow> number \<Rightarrow> error + string" where
  "hash input len = hash_units (map of_char input) len"


section \<open>JavaScript values\<close>

text \<open>
  The Numbers taken into account are the safe integers (\<^verbatim>\<open>Number.isSafeInteger\<close>): the
  integers strictly between \<^verbatim>\<open>-2^53\<close> and \<^verbatim>\<open>2^53\<close>. Each of them is a Number, no two are
  the same Number, and \<^verbatim>\<open>String\<close> prints each digit of it. Beyond them a Number stands
  for several integers and is printed rounded, or with an exponent (\<^verbatim>\<open>1e+21\<close>).
\<close>

typedef safe_integer = "{n :: int. - (2 ^ 53) < n \<and> n < 2 ^ 53}"
  by (rule exI [of _ 0]) simp

text \<open>
  The values the sources leave untyped (\<^verbatim>\<open>any\<close>): element data, storage values and
  the children an author writes. \<open>JObj\<close> is a plain object (its prototype is
  \<^verbatim>\<open>Object.prototype\<close>) given by its own properties, none of which is callable.
\<close>

datatype jsval =
    JUndefined
  | JNull
  | JBool bool
  | JNum safe_integer
  | JStr string
  | JObj "(string \<times> jsval) list"

text \<open>The Number that is the integer \<open>n\<close>, for a safe integer \<open>n\<close>.\<close>

abbreviation num :: "int \<Rightarrow> jsval" where
  "num n \<equiv> JNum (Abs_safe_integer n)"

text \<open>What \<^verbatim>\<open>if (v)\<close> and \<^verbatim>\<open>!v\<close> test.\<close>

fun truthy :: "jsval \<Rightarrow> bool" where
  "truthy JUndefined = False"
| "truthy JNull = False"
| "truthy (JBool b) = b"
| "truthy (JNum n) = (Rep_safe_integer n \<noteq> 0)"
| "truthy (JStr s) = (s \<noteq> [])"
| "truthy (JObj fields) = True"

text \<open>
  The same test on an optional string property (\<^verbatim>\<open>slug?: string\<close>): \<^verbatim>\<open>undefined\<close>
  and the empty string are falsy.
\<close>

definition truthy_string :: "string option \<Rightarrow> bool" where
  "truthy_string s = (case s of None \<Rightarrow> False | Some t \<Rightarrow> t \<noteq> [])"

text \<open>Decimal digits of a number, as a template literal or \<^verbatim>\<open>String(n)\<close> prints them.\<close>

definition digit :: "nat \<Rightarrow> char" where
  "digit d = ''0123456789'' ! (d mod 10)"

function decimal :: "nat \<Rightarrow> string" where
  "decimal n = (if n < 10 then [digit n] else decimal (n div 10) @ [digit (n mod 10)])"
  by pat_completeness auto
termination
  by (relation "measure (\<lambda>n. n)") auto

declare decimal.simps [simp del]

text \<open>The digits of an integer, with its sign.\<close>

definition integer_digits :: "int \<Rightarrow> string" where
  "integer_digits i = (if i < 0 then ''-'' @ decimal (nat (- i)) else decimal (nat i))"

text \<open>
  \<^verbatim>\<open>String(v)\<close>, the string form of a value. For an object the language calls its
  \<^verbatim>\<open>toString\<close>: the one of \<^verbatim>\<open>Object.prototype\<close>, which gives \<^verbatim>\<open>[object Object]\<close>, unless
  the object has a property \<^verbatim>\<open>toString\<close> of its own. That one is not callable, so the
  language goes on to \<^verbatim>\<open>valueOf\<close>, which gives no primitive (the inherited one returns
  the object, one of its own is not callable), and throws a \<^verbatim>\<open>TypeError\<close>. The left
  operand of \<^verbatim>\<open>data += strChild\<close> is turned into a string with the same outcome: there
  \<^verbatim>\<open>valueOf\<close> is tried first and \<^verbatim>\<open>toString\<close> second.
\<close>

fun js_String :: "jsval \<Rightarrow> error + string" where
  "js_String JUndefined = Inr ''undefined''"
| "js_String JNull = Inr ''null''"
| "js_String (JBool b) = Inr (if b then ''true'' else ''false'')"
| "js_String (JNum n) = Inr (integer_digits (Rep_safe_integer n))"
| "js_String (JStr s) = Inr s"
| "js_String (JObj fields) =
     (if ''toString'' \<in> set (map fst fields) then Inl CannotConvertToPrimitive
      else Inr ''[object Object]'')"

text \<open>
  A \<^verbatim>\<open>Set<string>\<close> is the list of its members in insertion order.
  \<^verbatim>\<open>s.has(x)\<close> is \<open>x \<in> set s\<close>.
\<close>

definition Set_add :: "string \<Rightarrow> string list \<Rightarrow> string list" where
  "Set_add x s = (if x \<in> set s then s else s @ [x])"

text \<open>\<^verbatim>\<open>new Set(iterable)\<close>, and \<^verbatim>\<open>new Set(undefined)\<close> for \<open>None\<close>.\<close>

definition new_Set :: "string list option \<Rightarrow> string list" where
  "new_Set xs = (case xs of None \<Rightarrow> [] | Some l \<Rightarrow> fold Set_add l [])"

section \<open>schema.ts, element.ts: schemas and elements\<close>

datatype layout = Block | Inliner

record schema =
  schema_name :: string
  schema_type :: layout
  schema_linkable :: bool

definition textSchema :: schema where
  "textSchema = \<lparr>schema_name = ''text'', schema_type = Inliner, schema_linkable = False\<rparr>"

definition inlinersSchema :: schema where
  "inlinersSchema = \<lparr>schema_name = ''inliners'', schema_type = Inliner, schema_linkable = False\<rparr>"

definition mixSchema :: schema where
  "mixSchema = \<lparr>schema_name = ''mix'', schema_type = Block, schema_linkable = False\<rparr>"

text \<open>
  \<^verbatim>\<open>RawElement\<close> and \<^verbatim>\<open>ProseElement\<close>. An optional property is an \<open>option\<close>
  (\<open>None\<close> is \<^verbatim>\<open>undefined\<close>). Elements are values here, so the brand and the
  symbol-keyed reference to the schema object are left out: \<open>raw_schemaName\<close> names it.
\<close>

datatype raw = Raw
  (raw_hash: string)
  (raw_tagName: string)
  (raw_slug: "string option")
  (raw_schemaName: string)
  (raw_data: jsval)
  (raw_storageKey: "string option")
  (raw_children: "raw list option")
  (raw_uniqueName: "string option")

datatype prose = Prose
  (prose_schemaName: string)
  (prose_data: jsval)
  (prose_storageKey: "string option")
  (prose_children: "prose list option")
  (prose_id: "string option")
  (prose_uniqueName: "string option")

text \<open>Assignments to one property of a raw element.\<close>

fun set_slug :: "string option \<Rightarrow> raw \<Rightarrow> raw" where
  "set_slug v (Raw h t s n d k c u) = Raw h t v n d k c u"

fun set_uniqueName :: "string option \<Rightarrow> raw \<Rightarrow> raw" where
  "set_uniqueName v (Raw h t s n d k c u) = Raw h t s n d k c v"

fun set_data :: "jsval \<Rightarrow> raw \<Rightarrow> raw" where
  "set_data v (Raw h t s n d k c u) = Raw h t s n v k c u"

fun set_hash :: "string \<Rightarrow> raw \<Rightarrow> raw" where
  "set_hash v (Raw h t s n d k c u) = Raw v t s n d k c u"

text \<open>\<^verbatim>\<open>isRawProseElement(element, schema)\<close> on a raw element.\<close>

definition isRawProseElement_of :: "raw \<Rightarrow> schema \<Rightarrow> bool" where
  "isRawProseElement_of element sch = (raw_schemaName element = schema_name sch)"

section \<open>registry.ts\<close>

text \<open>A tag is a function with two own properties; only these are read here.\<close>

record tag =
  tag_tagName :: string
  tag_schemaName :: string

text \<open>
  \<open>item_tags\<close> is the object \<^verbatim>\<open>defineRegistryItem\<close> builds, keyed by tag name, in
  the order of its keys. A storage creator returns a value or throws.
\<close>

record registry_item =
  item_schema :: schema
  item_tags :: "(string \<times> tag) list"
  item_createStorage :: "(prose \<Rightarrow> error + jsval) option"

record registry =
  items :: "string \<rightharpoonup> registry_item"
  tags :: "string \<rightharpoonup> tag"

text \<open>
  A method of the registry takes the registry and returns it with its result, also when
  it throws: the registry is shared state, and what it holds after a failed call is what a
  caller that catches the error goes on with.
\<close>

text \<open>The first loop of \<^verbatim>\<open>addItem\<close>: throw on the first tag name already registered.\<close>

fun check_tags :: "(string \<times> tag) list \<Rightarrow> registry \<Rightarrow> (error + unit) \<times> registry" where
  "check_tags [] reg = (Inr (), reg)"
| "check_tags ((tagName, t) # rest) reg =
     (if tagName \<in> dom (tags reg) then (Inl (TagAlreadyDefined tagName), reg)
      else check_tags rest reg)"

text \<open>The second loop: \<^verbatim>\<open>this.tags.set(tagName, item.tags[tagName])\<close>.\<close>

fun set_tags :: "(string \<times> tag) list \<Rightarrow> registry \<Rightarrow> registry" where
  "set_tags [] reg = reg"
| "set_tags ((tagName, t) # rest) reg = set_tags rest (reg\<lparr>tags := (tags reg)(tagName \<mapsto> t)\<rparr>)"

definition addItem :: "registry_item \<Rightarrow> registry \<Rightarrow> (error + unit) \<times> registry" where
  "addItem item reg =
     (let schemaName = schema_name (item_schema item) in
      if schemaName \<in> dom (items reg) then (Inl (SchemaAlreadyDefined schemaName), reg)
      else
        (case check_tags (item_tags item) reg of
           (Inl e, reg1) \<Rightarrow> (Inl e, reg1)
         | (Inr u, reg1) \<Rightarrow>
             (Inr (), set_tags (item_tags item)
                        (reg1\<lparr>items := (items reg1)(schemaName \<mapsto> item)\<rparr>))))"

fun addItems :: "registry_item list \<Rightarrow> registry \<Rightarrow> (error + unit) \<times> registry" where
  "addItems [] reg = (Inr (), reg)"
| "addItems (item # rest) reg =
     (case addItem item reg of
        (Inl e, reg1) \<Rightarrow> (Inl e, reg1)
      | (Inr u, reg1) \<Rightarrow> addItems rest reg1)"

definition defineRegistryItem :: "schema \<Rightarrow> tag list \<Rightarrow> (prose \<Rightarrow> error + jsval) option \<Rightarrow> registry_item" where
  "defineRegistryItem sch ts create =
     \<lparr>item_schema = sch,
      item_tags = fold (\<lambda>t acc. AList.update (tag_tagName t) t acc) ts [],
      item_createStorage = create\<rparr>"

definition setDefaultItems :: "registry \<Rightarrow> (error + unit) \<times> registry" where
  "setDefaultItems reg =
     addItems (map (\<lambda>sch. defineRegistryItem sch [] None) [textSchema, inlinersSchema, mixSchema]) reg"

definition setItems :: "registry_item list \<Rightarrow> registry \<Rightarrow> (error + unit) \<times> registry" where
  "setItems its reg =
     (case setDefaultItems \<lparr>items = Map.empty, tags = Map.empty\<rparr> of
        (Inl e, reg1) \<Rightarrow> (Inl e, reg1)
      | (Inr u, reg1) \<Rightarrow> addItems its reg1)"

definition getSchema :: "registry \<Rightarrow> string \<Rightarrow> error + schema" where
  "getSchema reg schemaName =
     (case items reg schemaName of
        None \<Rightarrow> Inl (MissingSchema schemaName)
      | Some item \<Rightarrow> Inr (item_schema item))"

definition getStorageCreators :: "registry \<Rightarrow> (string \<rightharpoonup> (prose \<Rightarrow> error + jsval))" where
  "getStorageCreators reg =
     (\<lambda>n. case items reg n of None \<Rightarrow> None | Some item \<Rightarrow> item_createStorage item)"

section \<open>unique.ts\<close>

text \<open>
  The object \<^verbatim>\<open>defineUnique\<close> returns, with the variable \<^verbatim>\<open>_rawElement\<close> its
  accessors close over as the field \<open>unique_rawElement\<close>: \<open>None\<close> until the setter has stored a
  raw element.
\<close>

record unique =
  unique_documentId :: string
  unique_name :: string
  unique_tag :: tag
  unique_rawElement :: "raw option"

definition defineUnique :: "string \<Rightarrow> string \<Rightarrow> tag \<Rightarrow> unique" where
  "defineUnique documentId name t =
     \<lparr>unique_documentId = documentId, unique_name = name, unique_tag = t, unique_rawElement = None\<rparr>"

text \<open>The setter \<^verbatim>\<open>unique.rawElement = value\<close>: the result and the unique after it.\<close>

definition set_rawElement :: "raw \<Rightarrow> unique \<Rightarrow> (error + unit) \<times> unique" where
  "set_rawElement v u =
     (if unique_rawElement u \<noteq> None then (Inl (UniqueAlreadyAssigned (unique_name u)), u)
      else if raw_tagName v \<noteq> tag_tagName (unique_tag u)
      then (Inl (UniqueTagMismatch (unique_name u) (tag_tagName (unique_tag u)) (raw_tagName v)), u)
      else (Inr (), u\<lparr>unique_rawElement := Some v\<rparr>))"

section \<open>children.ts: normalizing the children an author writes\<close>

text \<open>
  One element of the children array, as the loop classifies it: a raw element
  (\<^verbatim>\<open>isRawProseElement\<close>), a unique (\<^verbatim>\<open>isUnique\<close>), or anything else. Both tests read
  a mark (\<^verbatim>\<open>__JSPROSE_rawElement\<close>, \<^verbatim>\<open>__JSPROSE_unique\<close>), so \<open>COther\<close> is a value that
  carries neither.
\<close>

datatype child = CRaw raw | CUnique unique | COther jsval

text \<open>The argument \<^verbatim>\<open>children\<close>: an array, or a single value.\<close>

datatype children_arg = Single child | Array "child list"

text \<open>
  \<^verbatim>\<open>structuredClone\<close> and the restoring of the schema symbols: a deep copy, which on
  values is the element itself (\<open>deepCloneRawElement_id\<close> below).
\<close>

primrec deepCloneRawElement :: "raw \<Rightarrow> raw" where
  "deepCloneRawElement (Raw h t s n d k c u) =
     Raw h t s n d k (map_option (map deepCloneRawElement) c) u"

text \<open>The optional callback \<^verbatim>\<open>step?.(child)\<close>: \<open>Some e\<close> when it throws \<open>e\<close>.\<close>

definition call_step :: "('a \<Rightarrow> error option) option \<Rightarrow> 'a \<Rightarrow> error option" where
  "call_step step x = (case step of None \<Rightarrow> None | Some f \<Rightarrow> f x)"

text \<open>The text element built for a stringified child, given its hash.\<close>

definition jsxText :: "string \<Rightarrow> string \<Rightarrow> raw" where
  "jsxText strChild h =
     Raw h ''pure-text'' None (schema_name textSchema) (JStr strChild) None None None"

text \<open>\<^verbatim>\<open>lastNormalized.data += strChild\<close>: the string that is the new data.\<close>

definition append_data :: "jsval \<Rightarrow> string \<Rightarrow> error + string" where
  "append_data d strChild =
     (case js_String d of Inl e \<Rightarrow> Inl e | Inr s \<Rightarrow> Inr (s @ strChild))"

text \<open>\<^verbatim>\<open>normalizedChildren.at(-1)\<close>.\<close>

definition at_last :: "'a list \<Rightarrow> 'a option" where
  "at_last xs = (if xs = [] then None else Some (last xs))"

text \<open>
  The loop over \<^verbatim>\<open>childrenArray\<close>, on the array \<^verbatim>\<open>normalizedChildren\<close> built so
  far. Cloning \<^verbatim>\<open>child.rawElement\<close> of a unique that holds none reads a property of
  \<^verbatim>\<open>undefined\<close>: \<open>ReadOfUndefined\<close>. \<^verbatim>\<open>String(child)\<close> comes before the callback and
  may throw.
\<close>

fun normalize_loop ::
  "(raw \<Rightarrow> error option) option \<Rightarrow> raw list \<Rightarrow> child list \<Rightarrow> error + raw list" where
  "normalize_loop step normalizedChildren [] = Inr normalizedChildren"
| "normalize_loop step normalizedChildren (CRaw r # rest) =
     (let clonedRawProseElement = deepCloneRawElement r in
      case call_step step clonedRawProseElement of
        Some e \<Rightarrow> Inl e
      | None \<Rightarrow> normalize_loop step (normalizedChildren @ [clonedRawProseElement]) rest)"
| "normalize_loop step normalizedChildren (CUnique u # rest) =
     (case unique_rawElement u of
        None \<Rightarrow> Inl ReadOfUndefined
      | Some r \<Rightarrow>
          (let cloned = deepCloneRawElement r;
               cloned1 = set_slug (raw_uniqueName cloned) cloned;
               clonedRawProseElement = set_uniqueName None cloned1 in
           case call_step step clonedRawProseElement of
             Some e \<Rightarrow> Inl e
           | None \<Rightarrow> normalize_loop step (normalizedChildren @ [clonedRawProseElement]) rest))"
| "normalize_loop step normalizedChildren (COther v # rest) =
     (case js_String v of
        Inl e \<Rightarrow> Inl e
      | Inr strChild \<Rightarrow>
          (case hash strChild (Integer 12) of
             Inl e \<Rightarrow> Inl e
           | Inr h \<Rightarrow>
               (case call_step step (jsxText strChild h) of
                  Some e \<Rightarrow> Inl e
                | None \<Rightarrow>
                    (case at_last normalizedChildren of
                       None \<Rightarrow> normalize_loop step (normalizedChildren @ [jsxText strChild h]) rest
                     | Some lastNormalized \<Rightarrow>
                         if isRawProseElement_of lastNormalized textSchema
                         then
                           (case append_data (raw_data lastNormalized) strChild of
                              Inl e \<Rightarrow> Inl e
                            | Inr merged \<Rightarrow>
                                (case hash merged (Integer 12) of
                                   Inl e \<Rightarrow> Inl e
                                 | Inr h2 \<Rightarrow>
                                     normalize_loop step
                                       (butlast normalizedChildren
                                          @ [set_hash h2 (set_data (JStr merged) lastNormalized)])
                                       rest))
                         else
                           normalize_loop step (normalizedChildren @ [jsxText strChild h]) rest))))"

text \<open>\<^verbatim>\<open>children === undefined\<close> is the single value \<open>COther JUndefined\<close>.\<close>

definition normalizeChildren ::
  "children_arg \<Rightarrow> (raw \<Rightarrow> error option) option \<Rightarrow> error + raw list option" where
  "normalizeChildren children step =
     (if children = Single (COther JUndefined) then Inr None
      else
        (case normalize_loop step []
                (case children of Array cs \<Rightarrow> cs | Single c \<Rightarrow> [c]) of
           Inl e \<Rightarrow> Inl e
         | Inr normalizedChildren \<Rightarrow> Inr (Some normalizedChildren)))"

section \<open>utils/case.ts\<close>

text \<open>
  Modelled from the spec: \<^verbatim>\<open>kebabCase\<close> of \<^verbatim>\<open>utils/case.ts\<close>, which is not among the
  sources. The spec fixes it by example only (\<^verbatim>\<open>myAnchor\<close> gives \<^verbatim>\<open>my-anchor\<close>):
  every upper-case letter becomes its lower-case letter, after a hyphen unless it is the
  first character. The functions below take the conversion as a parameter \<open>kebab\<close>, and
  every general statement holds for any conversion; \<open>kebabCase\<close> is for the concrete
  examples.
\<close>

definition is_upper :: "char \<Rightarrow> bool" where
  "is_upper c = (c \<in> set ''ABCDEFGHIJKLMNOPQRSTUVWXYZ'')"

definition to_lower :: "char \<Rightarrow> char" where
  "to_lower c =
     (case map_of (zip ''ABCDEFGHIJKLMNOPQRSTUVWXYZ'' ''abcdefghijklmnopqrstuvwxyz'') c of
        None \<Rightarrow> c
      | Some l \<Rightarrow> l)"

fun kebab_from :: "bool \<Rightarrow> string \<Rightarrow> string" where
  "kebab_from first [] = []"
| "kebab_from first (c # cs) =
     (if is_upper c
      then (if first then [] else ''-'') @ [to_lower c] @ kebab_from False cs
      else c # kebab_from False cs)"

definition kebabCase :: "string \<Rightarrow> string" where
  "kebabCase s = kebab_from True s"

section \<open>id.ts\<close>

definition uniqueName2Id :: "(string \<Rightarrow> string) \<Rightarrow> string \<Rightarrow> string" where
  "uniqueName2Id kebab uniqueName = kebab uniqueName"

text \<open>
  The loop \<^verbatim>\<open>while (ids.has(id) || uniqueIds.has(id))\<close> on its two variables
  (\<open>id'\<close> is the source's \<^verbatim>\<open>id\<close>). It ends
  because the candidates \<open>baseId-1\<close>, \<open>baseId-2\<close>, ... are pairwise different and the two
  sets are finite (\<open>dedupe_terminates\<close> below).
\<close>

definition reserved_after :: "string list \<Rightarrow> string list \<Rightarrow> string \<Rightarrow> nat \<Rightarrow> string set" where
  "reserved_after ids uniqueIds baseId n =
     {s \<in> set ids \<union> set uniqueIds. \<exists>k > n. s = baseId @ ''-'' @ decimal k}"

definition dedupe_measure :: "string list \<times> string list \<times> string \<times> string \<times> nat \<Rightarrow> nat" where
  "dedupe_measure = (\<lambda>(ids, uniqueIds, baseId, id', n).
     2 * card (reserved_after ids uniqueIds baseId n)
       + (if id' \<in> set ids \<or> id' \<in> set uniqueIds then 1 else 0))"

lemma digit_inj: "a < 10 \<Longrightarrow> b < 10 \<Longrightarrow> digit a = digit b \<Longrightarrow> a = b"
proof -
  assume a: "a < 10" and b: "b < 10" and e: "digit a = digit b"
  have d: "distinct ''0123456789''"
    by simp
  have "''0123456789'' ! a = ''0123456789'' ! b"
    using a b e by (simp add: digit_def)
  with d a b show "a = b"
    by (simp add: nth_eq_iff_index_eq)
qed

lemma decimal_not_Nil: "decimal n \<noteq> []"
  by (subst decimal.simps) simp

lemma decimal_inj: "decimal m = decimal n \<Longrightarrow> m = n"
proof (induction m arbitrary: n rule: decimal.induct)
  case (1 m)
  note e = \<open>decimal m = decimal n\<close>
  show ?case
  proof (cases "m < 10")
    case small_m: True
    show ?thesis
    proof (cases "n < 10")
      case True
      with small_m e show ?thesis
        by (simp add: decimal.simps [of m] decimal.simps [of n] digit_inj)
    next
      case False
      with small_m e decimal_not_Nil [of "n div 10"] show ?thesis
        by (simp add: decimal.simps [of m] decimal.simps [of n])
    qed
  next
    case big_m: False
    show ?thesis
    proof (cases "n < 10")
      case True
      with big_m e decimal_not_Nil [of "m div 10"] show ?thesis
        by (simp add: decimal.simps [of m] decimal.simps [of n])
    next
      case False
      with big_m e have q: "decimal (m div 10) = decimal (n div 10)"
        and r: "digit (m mod 10) = digit (n mod 10)"
        by (simp_all add: decimal.simps [of m] decimal.simps [of n])
      from "1.IH" [OF big_m q] have "m div 10 = n div 10" .
      moreover from r have "m mod 10 = n mod 10"
        by (intro digit_inj) simp_all
      ultimately show ?thesis
        by (metis div_mult_mod_eq)
    qed
  qed
qed

function dedupe :: "string list \<Rightarrow> string list \<Rightarrow> string \<Rightarrow> string \<Rightarrow> nat \<Rightarrow> string" where
  "dedupe ids uniqueIds baseId id' dedupeCounter =
     (if id' \<in> set ids \<or> id' \<in> set uniqueIds
      then dedupe ids uniqueIds baseId
             (baseId @ ''-'' @ decimal (dedupeCounter + 1)) (dedupeCounter + 1)
      else id')"
  by pat_completeness auto

lemma dedupe_terminates:
  assumes "id' \<in> set ids \<or> id' \<in> set uniqueIds"
  shows "dedupe_measure (ids, uniqueIds, baseId, baseId @ ''-'' @ decimal (n + 1), n + 1)
           < dedupe_measure (ids, uniqueIds, baseId, id', n)"
proof -
  let ?R = "reserved_after ids uniqueIds baseId"
  let ?next = "baseId @ ''-'' @ decimal (n + 1)"
  have fin: "finite (?R n)"
    by (simp add: reserved_after_def)
  have sub: "?R (n + 1) \<subseteq> ?R n"
  proof
    fix s
    assume "s \<in> ?R (n + 1)"
    then obtain k where "s \<in> set ids \<union> set uniqueIds" and "n + 1 < k"
      and "s = baseId @ ''-'' @ decimal k"
      by (auto simp: reserved_after_def)
    then have "s \<in> set ids \<union> set uniqueIds" and "\<exists>k > n. s = baseId @ ''-'' @ decimal k"
      by (simp, intro exI [of _ k], simp)
    then show "s \<in> ?R n"
      by (simp add: reserved_after_def)
  qed
  show ?thesis
  proof (cases "?next \<in> set ids \<or> ?next \<in> set uniqueIds")
    case True
    then have "?next \<in> ?R n"
      by (auto simp: reserved_after_def)
    moreover have "?next \<notin> ?R (n + 1)"
      by (auto simp: reserved_after_def dest: decimal_inj)
    ultimately have "?R (n + 1) \<subset> ?R n"
      using sub by blast
    then have "card (?R (n + 1)) < card (?R n)"
      using fin by (rule psubset_card_mono [rotated])
    with True assms show ?thesis
      by (simp add: dedupe_measure_def)
  next
    case False
    have "card (?R (n + 1)) \<le> card (?R n)"
      using fin sub by (rule card_mono)
    with False assms show ?thesis
      by (simp add: dedupe_measure_def)
  qed
qed

termination dedupe
proof (relation "measure dedupe_measure")
  show "wf (measure dedupe_measure)"
    by simp
next
  fix ids uniqueIds :: "string list" and baseId id' :: string and dedupeCounter :: nat
  assume "id' \<in> set ids \<or> id' \<in> set uniqueIds"
  then show "((ids, uniqueIds, baseId, baseId @ ''-'' @ decimal (dedupeCounter + 1),
               dedupeCounter + 1), (ids, uniqueIds, baseId, id', dedupeCounter))
             \<in> measure dedupe_measure"
    using dedupe_terminates [of id' ids uniqueIds baseId dedupeCounter] by simp
qed

declare dedupe.simps [simp del]

text \<open>
  \<^verbatim>\<open>createId(ids, uniqueIds, rawElement)\<close> returns the identifier and the set \<open>ids\<close>
  as the call leaves it. \<^verbatim>\<open>if (rawElement.uniqueName)\<close> and \<^verbatim>\<open>rawElement.slug ? .. : ..\<close>
  test truthiness, so an empty string counts as absent.
\<close>

definition createId ::
  "(string \<Rightarrow> string) \<Rightarrow> string list \<Rightarrow> string list \<Rightarrow> raw \<Rightarrow> error + (string \<times> string list)" where
  "createId kebab ids uniqueIds rawElement =
     (if truthy_string (raw_uniqueName rawElement)
      then
        (let uniqueName = the (raw_uniqueName rawElement);
             id' = uniqueName2Id kebab uniqueName in
         if id' \<in> set ids then Inl (DuplicateUniqueId uniqueName id')
         else Inr (id', Set_add id' ids))
      else
        (let baseId =
               (if truthy_string (raw_slug rawElement) then kebab (the (raw_slug rawElement))
                else raw_schemaName rawElement @ ''-'' @ raw_hash rawElement);
             id' = dedupe ids uniqueIds baseId baseId 0 in
         Inr (id', Set_add id' ids)))"

section \<open>walk.ts\<close>

text \<open>
  What \<^verbatim>\<open>step\<close> returns: \<^verbatim>\<open>WalkStop\<close>, \<^verbatim>\<open>WalkNoDeeper\<close>, or nothing (\<open>WalkVoid\<close>).
  \<^verbatim>\<open>walkElements\<close> itself returns \<^verbatim>\<open>WalkStop\<close> or nothing.
\<close>

datatype walk_result = WalkStop | WalkNoDeeper | WalkVoid

text \<open>
  The walker reads nothing of an element but \<^verbatim>\<open>children\<close>, whose slots it filters
  with \<^verbatim>\<open>Boolean\<close>: a tree of elements \<open>'a\<close> whose child slots may be falsy (\<open>None\<close>).
\<close>

datatype 'a node = Node (node_element: 'a) (node_children: "'a node option list option")

text \<open>\<^verbatim>\<open>children.filter(Boolean)\<close>.\<close>

fun filter_Boolean :: "'a option list \<Rightarrow> 'a list" where
  "filter_Boolean [] = []"
| "filter_Boolean (None # xs) = filter_Boolean xs"
| "filter_Boolean (Some x # xs) = x # filter_Boolean xs"

lemma size_filter_Boolean:
  "size_list (size_node f) (filter_Boolean cs) \<le> size_list (size_option (size_node f)) cs"
  by (induction cs rule: filter_Boolean.induct) simp_all

text \<open>
  \<^verbatim>\<open>step\<close> may be any callback with effects: it takes the state \<open>'s\<close> of whatever it
  writes to and returns it with its result, or throws. \<open>walk_children\<close> is the
  \<^verbatim>\<open>for\<close> loop over the filtered children.
\<close>

function walkElements ::
    "('a \<Rightarrow> 's \<Rightarrow> error + (walk_result \<times> 's)) \<Rightarrow> 'a node \<Rightarrow> 's \<Rightarrow> error + (walk_result \<times> 's)"
  and walk_children ::
    "('a \<Rightarrow> 's \<Rightarrow> error + (walk_result \<times> 's)) \<Rightarrow> 'a node list \<Rightarrow> 's \<Rightarrow> error + (walk_result \<times> 's)"
where
  "walkElements step (Node element children) st =
     (case step element st of
        Inl e \<Rightarrow> Inl e
      | Inr (result, st1) \<Rightarrow>
          if result = WalkStop then Inr (WalkStop, st1)
          else if result = WalkNoDeeper then Inr (WalkVoid, st1)
          else
            (case children of
               None \<Rightarrow> Inr (WalkVoid, st1)
             | Some cs \<Rightarrow> walk_children step (filter_Boolean cs) st1))"
| "walk_children step [] st = Inr (WalkVoid, st)"
| "walk_children step (child # rest) st =
     (case walkElements step child st of
        Inl e \<Rightarrow> Inl e
      | Inr (childResult, st1) \<Rightarrow>
          if childResult = WalkStop then Inr (WalkStop, st1)
          else walk_children step rest st1)"
  by pat_completeness auto
termination
proof (relation "measure (\<lambda>x. case x of
          Inl (step, n, st) \<Rightarrow> 2 * size_node (\<lambda>_. 0) n + 1
        | Inr (step, ns, st) \<Rightarrow> 2 * size_list (size_node (\<lambda>_. 0)) ns + 2)")
  show "wf (measure (\<lambda>x :: ('a \<Rightarrow> 's \<Rightarrow> error + (walk_result \<times> 's)) \<times> 'a node \<times> 's
              + ('a \<Rightarrow> 's \<Rightarrow> error + (walk_result \<times> 's)) \<times> 'a node list \<times> 's.
          case x of
            Inl (step, n, st) \<Rightarrow> 2 * size_node (\<lambda>_. 0) n + 1
          | Inr (step, ns, st) \<Rightarrow> 2 * size_list (size_node (\<lambda>_. 0)) ns + 2))"
    by simp
next
  fix step :: "'a \<Rightarrow> 's \<Rightarrow> error + (walk_result \<times> 's)"
    and element :: 'a and children :: "'a node option list option" and st st1 :: 's
    and cs :: "'a node option list"
  assume "children = Some cs"
  then show "(Inr (step, filter_Boolean cs, st1), Inl (step, Node element children, st))
      \<in> measure (\<lambda>x. case x of
          Inl (step, n, st) \<Rightarrow> 2 * size_node (\<lambda>_. 0) n + 1
        | Inr (step, ns, st) \<Rightarrow> 2 * size_list (size_node (\<lambda>_. 0)) ns + 2)"
    using size_filter_Boolean [of "\<lambda>_. 0" cs] by simp
qed simp_all

section \<open>resolve.ts\<close>

text \<open>
  The raw tree as the walker sees it: every child slot holds an element.
\<close>

primrec raw_node :: "raw \<Rightarrow> raw node" where
  "raw_node (Raw h t s n d k c u) =
     Node (Raw h t s n d k c u) (map_option (map (\<lambda>x. Some (raw_node x))) c)"

text \<open>
  The callback of the pre-scan, on the set \<open>uniqueIds\<close> it adds to; \<open>ids\<close> is the set
  built from the caller's \<^verbatim>\<open>ids\<close>.
\<close>

definition prescan_step ::
  "(string \<Rightarrow> string) \<Rightarrow> string list \<Rightarrow> raw \<Rightarrow> string list \<Rightarrow> error + (walk_result \<times> string list)" where
  "prescan_step kebab ids rawElement uniqueIds =
     (if truthy_string (raw_uniqueName rawElement)
      then
        (let uniqueName = the (raw_uniqueName rawElement);
             id' = uniqueName2Id kebab uniqueName in
         if id' \<in> set ids then Inl (DuplicateUniqueId uniqueName id')
         else Inr (WalkVoid, Set_add id' uniqueIds))
      else Inr (WalkVoid, uniqueIds))"

text \<open>
  What a caller can observe of a resolution while it runs: the calls of its \<^verbatim>\<open>pre\<close>
  and \<^verbatim>\<open>post\<close> hooks, and (for the statements below) each prose element built.
\<close>

datatype event = PreCalled raw | Constructed prose | PostCalled prose

text \<open>The variables \<^verbatim>\<open>resolveRecursive\<close> closes over and writes to, and the trace.\<close>

record resolving =
  res_ids :: "string list"
  res_uniques :: "string \<rightharpoonup> prose"
  res_trace :: "event list"

text \<open>
  What it closes over and only reads. \<open>env_pre\<close> and \<open>env_post\<close> are the two hooks
  \<^verbatim>\<open>hook()\<close> returned (\<open>None\<close> when there is none); a hook returns \<open>Some e\<close> when it
  throws \<open>e\<close>.
\<close>

record resolve_env =
  env_kebab :: "string \<Rightarrow> string"
  env_registry :: registry
  env_linkable :: bool
  env_pre :: "(raw \<Rightarrow> error option) option"
  env_post :: "(prose \<Rightarrow> error option) option"
  env_uniqueIds :: "string list"

definition log_event :: "event \<Rightarrow> resolving \<Rightarrow> resolving" where
  "log_event ev st = st\<lparr>res_trace := res_trace st @ [ev]\<rparr>"

definition call_pre :: "resolve_env \<Rightarrow> raw \<Rightarrow> resolving \<Rightarrow> error option \<times> resolving" where
  "call_pre env rawElement st =
     (case env_pre env of
        None \<Rightarrow> (None, st)
      | Some pre \<Rightarrow> (pre rawElement, log_event (PreCalled rawElement) st))"

definition call_post :: "resolve_env \<Rightarrow> prose \<Rightarrow> resolving \<Rightarrow> error option \<times> resolving" where
  "call_post env proseElement st =
     (case env_post env of
        None \<Rightarrow> (None, st)
      | Some post \<Rightarrow> (post proseElement, log_event (PostCalled proseElement) st))"

fun set_id :: "string option \<Rightarrow> prose \<Rightarrow> prose" where
  "set_id v (Prose n d k c i u) = Prose n d k c v u"

fun set_prose_uniqueName :: "string option \<Rightarrow> prose \<Rightarrow> prose" where
  "set_prose_uniqueName v (Prose n d k c i u) = Prose n d k c i v"

text \<open>
  The body of \<^verbatim>\<open>resolveRecursive\<close> after its children are resolved: from
  \<^verbatim>\<open>PROSE_REGISTRY.getSchema\<close> to the \<^verbatim>\<open>return\<close>.
\<close>

definition finish_element ::
  "resolve_env \<Rightarrow> raw \<Rightarrow> prose list option \<Rightarrow> resolving \<Rightarrow> (error + prose) \<times> resolving" where
  "finish_element env rawElement resolvedChildren st =
     (case getSchema (env_registry env) (raw_schemaName rawElement) of
        Inl e \<Rightarrow> (Inl e, st)
      | Inr sch \<Rightarrow>
          (let proseElement0 =
                 Prose (schema_name sch) (raw_data rawElement) (raw_storageKey rawElement)
                   resolvedChildren None None;
               st1 = log_event (Constructed proseElement0) st in
           case (if env_linkable env \<and> schema_linkable sch
                 then (case createId (env_kebab env) (res_ids st1) (env_uniqueIds env) rawElement of
                         Inl e \<Rightarrow> Inl e
                       | Inr (id', ids') \<Rightarrow> Inr (set_id (Some id') proseElement0, st1\<lparr>res_ids := ids'\<rparr>))
                 else Inr (proseElement0, st1)) of
             Inl e \<Rightarrow> (Inl e, st1)
           | Inr (proseElement1, st2) \<Rightarrow>
               (let (proseElement, st3) =
                      (if truthy_string (raw_uniqueName rawElement)
                       then
                         (let p = set_prose_uniqueName (raw_uniqueName rawElement) proseElement1 in
                          (p, st2\<lparr>res_uniques := (res_uniques st2)(the (raw_uniqueName rawElement) \<mapsto> p)\<rparr>))
                       else (proseElement1, st2)) in
                case call_post env proseElement st3 of
                  (Some e, st4) \<Rightarrow> (Inl e, st4)
                | (None, st4) \<Rightarrow> (Inr proseElement, st4))))"

lemma size_raw_children:
  "raw_children rawElement = Some cs \<Longrightarrow> size_list size cs < size rawElement"
  by (cases rawElement) simp

text \<open>
  \<^verbatim>\<open>resolveRecursive\<close>, and the \<^verbatim>\<open>for\<close> loop over the children with the array
  \<^verbatim>\<open>resolvedChildren\<close> it pushes to. The state is returned also when the call throws.
\<close>

function resolveRecursive ::
    "resolve_env \<Rightarrow> raw \<Rightarrow> resolving \<Rightarrow> (error + prose) \<times> resolving"
  and resolve_children ::
    "resolve_env \<Rightarrow> raw list \<Rightarrow> prose list \<Rightarrow> resolving \<Rightarrow> (error + prose list) \<times> resolving"
where
  "resolveRecursive env rawElement st =
     (case call_pre env rawElement st of
        (Some e, st1) \<Rightarrow> (Inl e, st1)
      | (None, st1) \<Rightarrow>
          (case raw_children rawElement of
             None \<Rightarrow> finish_element env rawElement None st1
           | Some cs \<Rightarrow>
               (case resolve_children env cs [] st1 of
                  (Inl e, st2) \<Rightarrow> (Inl e, st2)
                | (Inr resolvedChildren, st2) \<Rightarrow>
                    finish_element env rawElement (Some resolvedChildren) st2)))"
| "resolve_children env [] resolvedChildren st = (Inr resolvedChildren, st)"
| "resolve_children env (child # rest) resolvedChildren st =
     (case resolveRecursive env child st of
        (Inl e, st1) \<Rightarrow> (Inl e, st1)
      | (Inr resolvedChild, st1) \<Rightarrow>
          resolve_children env rest (resolvedChildren @ [resolvedChild]) st1)"
  by pat_completeness auto
termination
  by (relation "measure (\<lambda>x. case x of
          Inl (env, r, st) \<Rightarrow> 2 * size r + 1
        | Inr (env, rs, acc, st) \<Rightarrow> 2 * size_list size rs + 2)")
    (auto dest: size_raw_children)

declare resolveRecursive.simps [simp del]

text \<open>What \<^verbatim>\<open>resolveRawElement\<close> returns.\<close>

record resolved =
  resolved_proseElement :: prose
  resolved_uniques :: "string \<rightharpoonup> prose"
  resolved_ids :: "string list"

text \<open>
  \<^verbatim>\<open>resolveRawElement\<close>, with the trace of the whole call, kept also when it throws.
  \<open>externalIds\<close> is the caller's \<^verbatim>\<open>ids\<close> (\<open>None\<close> when not given).
\<close>

definition prescan ::
  "(string \<Rightarrow> string) \<Rightarrow> bool \<Rightarrow> string list \<Rightarrow> raw \<Rightarrow> error + string list" where
  "prescan kebab linkable ids rawElement =
     (if linkable
      then
        (case walkElements (prescan_step kebab ids) (raw_node rawElement) [] of
           Inl e \<Rightarrow> Inl e
         | Inr (r, uniqueIds) \<Rightarrow> Inr uniqueIds)
      else Inr [])"

definition resolveRawElement ::
  "(string \<Rightarrow> string) \<Rightarrow> registry \<Rightarrow> raw \<Rightarrow> bool
     \<Rightarrow> (raw \<Rightarrow> error option) option \<Rightarrow> (prose \<Rightarrow> error option) option
     \<Rightarrow> string list option \<Rightarrow> (error + resolved) \<times> event list" where
  "resolveRawElement kebab reg rawElement linkable pre post externalIds =
     (let ids0 = new_Set externalIds in
      case prescan kebab linkable ids0 rawElement of
        Inl e \<Rightarrow> (Inl e, [])
      | Inr uniqueIds \<Rightarrow>
          (let env = \<lparr>env_kebab = kebab, env_registry = reg, env_linkable = linkable,
                      env_pre = pre, env_post = post, env_uniqueIds = uniqueIds\<rparr>;
               st0 = \<lparr>res_ids = ids0, res_uniques = Map.empty, res_trace = []\<rparr> in
           case resolveRecursive env rawElement st0 of
             (Inl e, st) \<Rightarrow> (Inl e, res_trace st)
           | (Inr p, st) \<Rightarrow>
               (Inr \<lparr>resolved_proseElement = p, resolved_uniques = res_uniques st,
                      resolved_ids = res_ids st\<rparr>,
                res_trace st)))"

section \<open>fillStorage\<close>

text \<open>\<^verbatim>\<open>GenericStorage\<close>; \<^verbatim>\<open>storage[key]\<close> is \<^verbatim>\<open>undefined\<close> for a key it lacks.\<close>

type_synonym storage = "string \<rightharpoonup> jsval"

definition storage_get :: "storage \<Rightarrow> string \<Rightarrow> jsval" where
  "storage_get storage key = (case storage key of None \<Rightarrow> JUndefined | Some v \<Rightarrow> v)"

text \<open>
  The arguments but the storage and the element: a generator returns the value its
  promise resolves to, or the error it throws or rejects with.
\<close>

record fill_args =
  fill_storageCreators :: "string \<rightharpoonup> (prose \<Rightarrow> error + jsval)"
  fill_step :: "(prose \<Rightarrow> error option) option"

text \<open>
  \<^verbatim>\<open>createStorageFor\<close> is asynchronous, and the calls for the children of one element
  run concurrently (\<^verbatim>\<open>Promise.all\<close>). A call runs without interruption up to
  \<^verbatim>\<open>await generator(proseElement)\<close>, where it is suspended; \<open>Awaiting\<close> is such a
  suspended call: its element, the key it will write, and the value it will write when
  it goes on. A call that needs no generator runs on through its children, starting a
  call for each in order.
\<close>

datatype task = Awaiting prose string jsval

fun task_key :: "task \<Rightarrow> string" where
  "task_key (Awaiting el key v) = key"

text \<open>The test \<^verbatim>\<open>storageKey && !storage[storageKey]\<close> and the lookup of the generator.\<close>

definition wanted_generator ::
  "fill_args \<Rightarrow> storage \<Rightarrow> prose \<Rightarrow> (string \<times> (prose \<Rightarrow> error + jsval)) option" where
  "wanted_generator args storage proseElement =
     (if truthy_string (prose_storageKey proseElement)
         \<and> \<not> truthy (storage_get storage (the (prose_storageKey proseElement)))
      then
        (case fill_storageCreators args (prose_schemaName proseElement) of
           None \<Rightarrow> None
         | Some generator \<Rightarrow> Some (the (prose_storageKey proseElement), generator))
      else None)"

lemma size_prose_children:
  assumes "prose_children proseElement = Some cs" and "c \<in> set cs"
  shows "size c < size proseElement"
proof -
  from assms(2) have "size c \<le> size_list size cs"
    by (induction cs) auto
  with assms(1) show ?thesis
    by (cases proseElement) simp
qed

text \<open>
  \<open>createStorageFor args storage el\<close> is the uninterrupted run of a call from its start:
  the calls it leaves suspended. It writes nothing: every write comes after an
  \<^verbatim>\<open>await\<close>. \<open>after_storage\<close> is the rest of the body, from \<^verbatim>\<open>if (args.step)\<close> on.
  A generator or a \<^verbatim>\<open>step\<close> that throws rejects the promise of its own call and ends
  it; nothing cancels the other calls.
\<close>

function createStorageFor :: "fill_args \<Rightarrow> storage \<Rightarrow> prose \<Rightarrow> task list"
  and after_storage :: "fill_args \<Rightarrow> storage \<Rightarrow> prose \<Rightarrow> task list"
where
  "createStorageFor args storage proseElement =
     (case wanted_generator args storage proseElement of
        Some (storageKey, generator) \<Rightarrow>
          (case generator proseElement of
             Inl e \<Rightarrow> []
           | Inr v \<Rightarrow> [Awaiting proseElement storageKey v])
      | None \<Rightarrow> after_storage args storage proseElement)"
| "after_storage args storage proseElement =
     (case call_step (fill_step args) proseElement of
        Some e \<Rightarrow> []
      | None \<Rightarrow>
          (case prose_children proseElement of
             None \<Rightarrow> []
           | Some cs \<Rightarrow> concat (map (createStorageFor args storage) cs)))"
  by pat_completeness auto
termination
  by (relation "measure (\<lambda>x. case x of
          Inl (args, storage, el) \<Rightarrow> 2 * size el + 1
        | Inr (args, storage, el) \<Rightarrow> 2 * size el)")
    (auto dest: size_prose_children)

declare createStorageFor.simps [simp del] after_storage.simps [simp del]

text \<open>
  A suspended call goes on: \<^verbatim>\<open>storage[storageKey] = (the awaited value)\<close>, then the rest
  of the body, with the calls that leaves suspended.
\<close>

fun resume :: "fill_args \<Rightarrow> storage \<Rightarrow> task \<Rightarrow> storage \<times> task list" where
  "resume args storage (Awaiting proseElement storageKey v) =
     (let storage1 = storage(storageKey \<mapsto> v) in
      (storage1, after_storage args storage1 proseElement))"

text \<open>
  In which order the suspended calls go on depends on when each generator's promise
  settles. A schedule names, step by step, the position of the suspended call that goes on
  next; every execution of \<^verbatim>\<open>fillStorage\<close> is the run of some schedule.
\<close>

fun run :: "fill_args \<Rightarrow> nat list \<Rightarrow> storage \<times> task list \<Rightarrow> storage \<times> task list" where
  "run args [] c = c"
| "run args (i # schedule) (storage, pending) =
     (if i < length pending
      then
        (case resume args storage (pending ! i) of
           (storage1, started) \<Rightarrow>
             run args schedule (storage1, take i pending @ drop (Suc i) pending @ started))
      else run args schedule (storage, pending))"

text \<open>
  \<^verbatim>\<open>fillStorage\<close> under a schedule: the storage, and the calls still suspended.
  The call has completed when none is.
\<close>

definition fillStorage ::
  "fill_args \<Rightarrow> storage \<Rightarrow> prose \<Rightarrow> nat list \<Rightarrow> storage \<times> task list" where
  "fillStorage args storage proseElement schedule =
     run args schedule (storage, createStorageFor args storage proseElement)"

section \<open>The order of a walk, in the specification's words\<close>

text \<open>
  A callback that decides by the element alone and records the elements it is called on:
  the state of the walk is the list of the elements visited so far.
\<close>

definition observe :: "('a \<Rightarrow> walk_result) \<Rightarrow> 'a \<Rightarrow> 'a list \<Rightarrow> error + (walk_result \<times> 'a list)" where
  "observe d element visited = Inr (d element, visited @ [element])"

text \<open>
  The elements of a tree in the order the specification gives: an element before its
  children, the children from left to right, each with its whole subtree before the next,
  falsy slots left out, and nothing below an element on which the callback says
  \<^verbatim>\<open>WalkNoDeeper\<close>.
\<close>

fun visit_order :: "('a \<Rightarrow> walk_result) \<Rightarrow> 'a node \<Rightarrow> 'a list"
  and visit_slots :: "('a \<Rightarrow> walk_result) \<Rightarrow> 'a node option list \<Rightarrow> 'a list"
where
  "visit_order d (Node element children) =
     element # (if d element = WalkNoDeeper then []
                else (case children of None \<Rightarrow> [] | Some cs \<Rightarrow> visit_slots d cs))"
| "visit_slots d [] = []"
| "visit_slots d (None # cs) = visit_slots d cs"
| "visit_slots d (Some c # cs) = visit_order d c @ visit_slots d cs"

text \<open>
  A sequence of visits up to and with the first element on which the callback says
  \<^verbatim>\<open>WalkStop\<close>, and whether there is such an element.
\<close>

fun up_to_stop :: "('a \<Rightarrow> walk_result) \<Rightarrow> 'a list \<Rightarrow> 'a list" where
  "up_to_stop d [] = []"
| "up_to_stop d (x # xs) = (if d x = WalkStop then [x] else x # up_to_stop d xs)"

definition stops :: "('a \<Rightarrow> walk_result) \<Rightarrow> 'a list \<Rightarrow> bool" where
  "stops d xs = list_ex (\<lambda>x. d x = WalkStop) xs"

section \<open>Identifiers, in the specification's words\<close>

text \<open>The candidates \<open>base\<close>, \<open>base-1\<close>, \<open>base-2\<close>, ... of an element without anchor.\<close>

definition candidate :: "string \<Rightarrow> nat \<Rightarrow> string" where
  "candidate baseId k = (if k = 0 then baseId else baseId @ ''-'' @ decimal k)"

text \<open>
  The base identifier: the kebab-cased slug when the element has a slug that is not
  empty, and else its schema name, a hyphen and its hash.
\<close>

definition base_identifier :: "(string \<Rightarrow> string) \<Rightarrow> raw \<Rightarrow> string" where
  "base_identifier kebab r =
     (case raw_slug r of
        Some s \<Rightarrow> if s \<noteq> [] then kebab s else raw_schemaName r @ ''-'' @ raw_hash r
      | None \<Rightarrow> raw_schemaName r @ ''-'' @ raw_hash r)"

section \<open>The identifiers of a resolved tree\<close>

text \<open>
  Every \<^verbatim>\<open>id\<close> a prose tree carries, one entry for each element that has one, children
  before their parent and from left to right: the order in which \<^verbatim>\<open>resolveRecursive\<close>
  assigns them.
\<close>

fun prose_ids :: "prose \<Rightarrow> string list" where
  "prose_ids (Prose n d k c i u) =
     (case c of None \<Rightarrow> [] | Some cs \<Rightarrow> concat (map prose_ids cs))
       @ (case i of None \<Rightarrow> [] | Some x \<Rightarrow> [x])"

definition kids_ids :: "prose list option \<Rightarrow> string list" where
  "kids_ids kids = (case kids of None \<Rightarrow> [] | Some cs \<Rightarrow> concat (map prose_ids cs))"

section \<open>Examples\<close>

text \<open>A registry with the schema \<open>mix\<close> and a linkable schema \<open>paragraph\<close>.\<close>

definition paragraphSchema :: schema where
  "paragraphSchema = \<lparr>schema_name = ''paragraph'', schema_type = Block, schema_linkable = True\<rparr>"

definition example_registry :: registry where
  "example_registry =
     \<lparr>items = [''mix'' \<mapsto> defineRegistryItem mixSchema [] None,
               ''paragraph'' \<mapsto> defineRegistryItem paragraphSchema [] None],
      tags = Map.empty\<rparr>"

text \<open>Two sibling paragraphs with the same slug \<open>intro\<close>.\<close>

definition two_intros :: raw where
  "two_intros =
     Raw ''h0'' ''Mix'' None ''mix'' JUndefined None
       (Some [Raw ''h1'' ''P'' (Some ''intro'') ''paragraph'' JUndefined None None None,
              Raw ''h2'' ''P'' (Some ''intro'') ''paragraph'' JUndefined None None None])
       None"

section \<open>The anchors of a raw tree\<close>

text \<open>
  The unique names a raw tree carries, in the order of the walk (an element before its
  children, children from left to right). As in the sources, an empty name is none.
\<close>

fun anchor_names :: "raw \<Rightarrow> string list" where
  "anchor_names (Raw h t s n d k c u) =
     (case u of None \<Rightarrow> [] | Some name \<Rightarrow> if name \<noteq> [] then [name] else [])
       @ (case c of None \<Rightarrow> [] | Some cs \<Rightarrow> concat (map anchor_names cs))"

text \<open>
  What the pre-scan does with these names, one after the other: fail on the first whose
  identifier the caller's set holds, and else add the identifier to \<open>uniqueIds\<close>.
\<close>

fun scan :: "(string \<Rightarrow> string) \<Rightarrow> string list \<Rightarrow> string list \<Rightarrow> string list \<Rightarrow> error + string list" where
  "scan kebab ids [] uniqueIds = Inr uniqueIds"
| "scan kebab ids (name # names) uniqueIds =
     (if kebab name \<in> set ids then Inl (DuplicateUniqueId name (kebab name))
      else scan kebab ids names (Set_add (kebab name) uniqueIds))"

text \<open>The same as a result of the walker.\<close>

definition scanned :: "error + string list \<Rightarrow> error + (walk_result \<times> string list)" where
  "scanned x = (case x of Inl e \<Rightarrow> Inl e | Inr acc \<Rightarrow> Inr (WalkVoid, acc))"

text \<open>
  The identifiers of the anchors that get one: the kebab-cased unique names of the
  elements whose schema is registered as linkable, children before their parent.
\<close>

definition own_anchor_id :: "(string \<Rightarrow> string) \<Rightarrow> registry \<Rightarrow> raw \<Rightarrow> string list" where
  "own_anchor_id kebab reg r =
     (case raw_uniqueName r of
        None \<Rightarrow> []
      | Some name \<Rightarrow>
          if name \<noteq> [] \<and> (case getSchema reg (raw_schemaName r) of
                              Inl e \<Rightarrow> False | Inr sch \<Rightarrow> schema_linkable sch)
          then [kebab name] else [])"

fun linkable_anchor_ids :: "(string \<Rightarrow> string) \<Rightarrow> registry \<Rightarrow> raw \<Rightarrow> string list" where
  "linkable_anchor_ids kebab reg (Raw h t s n d k c u) =
     (case c of None \<Rightarrow> [] | Some cs \<Rightarrow> concat (map (linkable_anchor_ids kebab reg) cs))
       @ own_anchor_id kebab reg (Raw h t s n d k c u)"

text \<open>Hooks that do nothing, and a tree with two anchors of the same name.\<close>

definition quiet_pre :: "raw \<Rightarrow> error option" where
  "quiet_pre r = None"

definition quiet_post :: "prose \<Rightarrow> error option" where
  "quiet_post p = None"

definition two_anchors :: raw where
  "two_anchors =
     Raw ''h0'' ''Mix'' None ''mix'' JUndefined None
       (Some [Raw ''h1'' ''P'' None ''paragraph'' JUndefined None None (Some ''sameName''),
              Raw ''h2'' ''P'' None ''paragraph'' JUndefined None None (Some ''sameName'')])
       None"

text \<open>An anchor \<open>myAnchor\<close> beside a paragraph with the slug \<open>intro\<close>.\<close>

definition anchor_and_intro :: raw where
  "anchor_and_intro =
     Raw ''h0'' ''Mix'' None ''mix'' JUndefined None
       (Some [Raw ''h1'' ''P'' None ''paragraph'' JUndefined None None (Some ''myAnchor''),
              Raw ''h2'' ''P'' (Some ''intro'') ''paragraph'' JUndefined None None None])
       None"

section \<open>Normalized children, in the specification's words\<close>

text \<open>What \<^verbatim>\<open>hash(s, 12)\<close> returns (\<open>hash_12\<close> below).\<close>

definition hash12 :: "string \<Rightarrow> string" where
  "hash12 s = hash_loop (makeXorShift32 (fnv1a32 (map of_char s))) [] 12"

text \<open>
  The text element of a content: the text schema, the tag \<open>pure-text\<close>, the content as
  data and the fingerprint of the content.
\<close>

definition text_node :: "string \<Rightarrow> raw" where
  "text_node s = Raw (hash12 s) ''pure-text'' None ''text'' (JStr s) None None None"

text \<open>An element of the text schema.\<close>

definition is_text :: "raw \<Rightarrow> bool" where
  "is_text r = (raw_schemaName r = ''text'')"

text \<open>
  An element given a content: the content as data and the fingerprint of the content, all
  else as it was.
\<close>

definition with_text :: "raw \<Rightarrow> string \<Rightarrow> raw" where
  "with_text l s = set_hash (hash12 s) (set_data (JStr s) l)"

text \<open>
  What a string does to the children normalized so far: merged into the last one when
  that is a text element, by concatenation with the string form of its data, and appended
  as a new text element otherwise.
\<close>

definition absorb :: "raw list \<Rightarrow> string \<Rightarrow> error + raw list" where
  "absorb acc s =
     (if acc \<noteq> [] \<and> is_text (last acc)
      then
        (case js_String (raw_data (last acc)) of
           Inl e \<Rightarrow> Inl e
         | Inr s0 \<Rightarrow> Inr (butlast acc @ [with_text (last acc) (s0 @ s)]))
      else Inr (acc @ [text_node s]))"

text \<open>
  The clone of an anchor's raw element: the unique name stripped, and in its place a
  slug equal to it.
\<close>

definition unique_clone :: "raw \<Rightarrow> raw" where
  "unique_clone r = set_uniqueName None (set_slug (raw_uniqueName r) r)"

text \<open>Two elements that differ in data and hash at most.\<close>

definition same_but_text :: "raw \<Rightarrow> raw \<Rightarrow> bool" where
  "same_but_text a b =
     (raw_tagName a = raw_tagName b \<and> raw_slug a = raw_slug b
      \<and> raw_schemaName a = raw_schemaName b \<and> raw_storageKey a = raw_storageKey b
      \<and> raw_children a = raw_children b \<and> raw_uniqueName a = raw_uniqueName b)"

text \<open>A unique that holds a bold element.\<close>

definition bold_unique :: unique where
  "bold_unique =
     \<lparr>unique_documentId = ''doc-mix'', unique_name = ''mixedUnique'',
      unique_tag = \<lparr>tag_tagName = ''Bold'', tag_schemaName = ''bold''\<rparr>,
      unique_rawElement =
        Some (Raw ''bold-hash'' ''Bold'' None ''bold'' JUndefined None None (Some ''mixedUnique''))\<rparr>"

section \<open>What a run of \<^verbatim>\<open>fillStorage\<close> keeps\<close>

text \<open>
  \<open>kept storage0 storage\<close>: every key whose value in \<open>storage0\<close> is truthy has the same
  value in \<open>storage\<close>. \<open>harmless storage0 pending\<close>: no suspended call will write under
  such a key.
\<close>

definition kept :: "storage \<Rightarrow> storage \<Rightarrow> bool" where
  "kept storage0 storage = (\<forall>key. truthy (storage_get storage0 key) \<longrightarrow> storage key = storage0 key)"

definition harmless :: "storage \<Rightarrow> task list \<Rightarrow> bool" where
  "harmless storage0 pending = (\<forall>t \<in> set pending. \<not> truthy (storage_get storage0 (task_key t)))"

text \<open>
  A generator for images, an image already measured, one that is not, and a container of
  both.
\<close>

definition image_dimensions :: "prose \<Rightarrow> error + jsval" where
  "image_dimensions el = Inr (JObj [(''width'', num 800), (''height'', num 600)])"

definition image_args :: fill_args where
  "image_args = \<lparr>fill_storageCreators = [''image'' \<mapsto> image_dimensions], fill_step = None\<rparr>"

definition cat_image :: prose where
  "cat_image = Prose ''image'' (JObj [(''src'', JStr ''cat.jpg'')]) (Some ''cat.jpg'') None None None"

definition dog_image :: prose where
  "dog_image = Prose ''image'' (JObj [(''src'', JStr ''dog.jpg'')]) (Some ''dog.jpg'') None None None"

definition two_images :: prose where
  "two_images = Prose ''mix'' JUndefined None (Some [cat_image, dog_image]) None None"

text \<open>
  A tree \<open>r\<close> with the slots \<open>a\<close> (which has a child \<open>a1\<close>), a falsy slot, \<open>b\<close> (no
  deeper; it has a child \<open>b1\<close>), \<open>c\<close> (stop; it has a child \<open>c1\<close>) and \<open>e\<close>.
\<close>

definition example_tree :: "string node" where
  "example_tree =
     Node ''r'' (Some [Some (Node ''a'' (Some [Some (Node ''a1'' None)])),
                       None,
                       Some (Node ''b'' (Some [Some (Node ''b1'' None)])),
                       Some (Node ''c'' (Some [Some (Node ''c1'' None)])),
                       Some (Node ''e'' None)])"

definition example_decision :: "string \<Rightarrow> walk_result" where
  "example_decision x =
     (if x = ''b'' then WalkNoDeeper else if x = ''c'' then WalkStop else WalkVoid)"

section \<open>The fingerprint's contract\<close>

lemma charAt_ALPHABET: "idx < 62 \<Longrightarrow> charAt ALPHABET idx = [ALPHABET ! idx]"
  by (simp add: charAt_def ALPHABET_def)

lemma hash_loop_length:
  "int (length out) \<le> len \<Longrightarrow> int (length (hash_loop x out len)) = len"
proof (induction x out len rule: hash_loop.induct)
  case (1 x out len)
  show ?case
  proof (cases "int (length out) < len")
    case True
    have "int (length (out @ charAt ALPHABET (unat (draw x) mod ALPHABET_LEN))) \<le> len"
      using True by (simp add: charAt_ALPHABET ALPHABET_LEN_def)
    from "1.IH" [OF True refl refl this] True show ?thesis
      by (subst hash_loop.simps) (simp add: Let_def)
  next
    case False
    with "1.prems" show ?thesis
      by (subst hash_loop.simps) simp
  qed
qed

lemma hash_loop_alphabet:
  "set out \<subseteq> set ALPHABET \<Longrightarrow> set (hash_loop x out len) \<subseteq> set ALPHABET"
proof (induction x out len rule: hash_loop.induct)
  case (1 x out len)
  show ?case
  proof (cases "int (length out) < len")
    case True
    have "unat (draw x) mod ALPHABET_LEN < length ALPHABET"
      by (simp add: ALPHABET_LEN_def ALPHABET_def)
    then have "set (out @ charAt ALPHABET (unat (draw x) mod ALPHABET_LEN)) \<subseteq> set ALPHABET"
      using "1.prems" by (simp add: charAt_def)
    from "1.IH" [OF True refl refl this] True show ?thesis
      by (subst hash_loop.simps) (simp add: Let_def)
  next
    case False
    with "1.prems" show ?thesis
      by (subst hash_loop.simps) simp
  qed
qed

lemma hash_units_positive:
  assumes "0 < n"
  shows "\<exists>out. hash_units input (Integer n) = Inr out \<and> int (length out) = n
           \<and> set out \<subseteq> set ALPHABET"
proof -
  let ?out = "hash_loop (makeXorShift32 (fnv1a32 input)) [] n"
  have "hash_units input (Integer n) = Inr ?out"
    using assms by (simp add: hash_units_def)
  moreover have "int (length ?out) = n"
    using assms by (intro hash_loop_length) simp
  moreover have "set ?out \<subseteq> set ALPHABET"
    by (intro hash_loop_alphabet) simp
  ultimately show ?thesis
    by blast
qed


text \<open>
  Claim C8. For every string (given by its code units) and every positive integer \<open>n\<close>,
  \<^verbatim>\<open>hash\<close> returns a string of exactly \<open>n\<close> characters, each from the alphabet of 62
  distinct symbols (digits, upper case, lower case); for every length that is not a
  positive integer (zero, negative, or not an integer at all) it throws the
  \<^verbatim>\<open>TypeError\<close>. The function keeps no state between calls (the generator is created
  inside each call), so it is a function of its two arguments: equal arguments give
  equal results.
\<close>

theorem hash_contract:
  "(\<forall>n. 0 < n \<longrightarrow>
      (\<exists>out. hash_units input (Integer n) = Inr out \<and> int (length out) = n
         \<and> set out \<subseteq> set ALPHABET))
   \<and> (\<forall>n. n \<le> 0 \<longrightarrow> hash_units input (Integer n) = Inl LengthNotPositiveInteger)
   \<and> hash_units input NonInteger = Inl LengthNotPositiveInteger
   \<and> is_TypeError LengthNotPositiveInteger
   \<and> length ALPHABET = 62 \<and> distinct ALPHABET
   \<and> ALPHABET = ''0123456789'' @ ''ABCDEFGHIJKLMNOPQRSTUVWXYZ'' @ ''abcdefghijklmnopqrstuvwxyz''"
proof -
  have "\<forall>n. 0 < n \<longrightarrow>
      (\<exists>out. hash_units input (Integer n) = Inr out \<and> int (length out) = n
         \<and> set out \<subseteq> set ALPHABET)"
    using hash_units_positive by blast
  moreover have "\<forall>n. n \<le> 0 \<longrightarrow> hash_units input (Integer n) = Inl LengthNotPositiveInteger"
    by (simp add: hash_units_def)
  moreover have "hash_units input NonInteger = Inl LengthNotPositiveInteger"
    by (simp add: hash_units_def)
  moreover have "length ALPHABET = 62" and "distinct ALPHABET"
    by (simp_all add: ALPHABET_def)
  moreover have "ALPHABET = ''0123456789'' @ ''ABCDEFGHIJKLMNOPQRSTUVWXYZ'' @ ''abcdefghijklmnopqrstuvwxyz''"
    by (simp add: ALPHABET_def)
  ultimately show ?thesis
    by simp
qed

theorem hash_contract_witness:
  "(0::int) < 12
   \<and> (\<exists>out. hash ''ABC'' (Integer 12) = Inr out \<and> int (length out) = 12
         \<and> set out \<subseteq> set ALPHABET)
   \<and> (0::int) \<le> 0 \<and> hash ''ABC'' (Integer 0) = Inl LengthNotPositiveInteger
   \<and> hash ''ABC'' (Integer (- 3)) = Inl LengthNotPositiveInteger
   \<and> hash ''ABC'' NonInteger = Inl LengthNotPositiveInteger"
proof -
  note c = hash_contract [of "map of_char ''ABC''", folded hash_def]
  have p: "(0::int) < 12" and z: "(0::int) \<le> 0" and m: "(- 3::int) \<le> 0"
    by simp_all
  from c p have "\<exists>out. hash ''ABC'' (Integer 12) = Inr out \<and> int (length out) = 12
         \<and> set out \<subseteq> set ALPHABET"
    by blast
  moreover from c z have "hash ''ABC'' (Integer 0) = Inl LengthNotPositiveInteger"
    by blast
  moreover from c m have "hash ''ABC'' (Integer (- 3)) = Inl LengthNotPositiveInteger"
    by blast
  moreover from c have "hash ''ABC'' NonInteger = Inl LengthNotPositiveInteger"
    by blast
  ultimately show ?thesis
    using p z by blast
qed


section \<open>The registry: a failed \<^verbatim>\<open>addItem\<close> changes nothing\<close>

lemma check_tags_keeps: "snd (check_tags ts reg) = reg"
  by (induction ts reg rule: check_tags.induct) simp_all

lemma check_tags_fails_iff:
  "(\<exists>e. fst (check_tags ts reg) = Inl e) \<longleftrightarrow> (\<exists>n \<in> fst ` set ts. n \<in> dom (tags reg))"
  by (induction ts reg rule: check_tags.induct) auto

text \<open>
  Claim C10. \<^verbatim>\<open>Registry.addItem\<close> is atomic on failure: whenever it throws, the
  registry (its schema map and its tag map) is exactly as it was before the call, whichever
  name collided; and it throws exactly when the item's schema name or one of its tag names
  is already registered. Both loops over the tags are in the model: the first only
  checks, the second only writes, and no write precedes the last check.
\<close>

theorem addItem_atomic:
  "(\<forall>e. fst (addItem item reg) = Inl e \<longrightarrow> snd (addItem item reg) = reg)
   \<and> ((\<exists>e. fst (addItem item reg) = Inl e) \<longleftrightarrow>
        (schema_name (item_schema item) \<in> dom (items reg)
         \<or> (\<exists>n \<in> fst ` set (item_tags item). n \<in> dom (tags reg))))"
proof -
  obtain r reg1 where c: "check_tags (item_tags item) reg = (r, reg1)"
    by (cases "check_tags (item_tags item) reg")
  with check_tags_keeps [of "item_tags item" reg] have k: "reg1 = reg"
    by simp
  have f: "(\<exists>e. r = Inl e) \<longleftrightarrow> (\<exists>n \<in> fst ` set (item_tags item). n \<in> dom (tags reg))"
    using check_tags_fails_iff [of "item_tags item" reg] c by simp
  show ?thesis
  proof (cases "schema_name (item_schema item) \<in> dom (items reg)")
    case True
    then show ?thesis
      by (simp add: addItem_def Let_def)
  next
    case False
    show ?thesis
    proof (cases r)
      case (Inl e)
      with False c k f show ?thesis
        by (simp add: addItem_def Let_def)
    next
      case (Inr u)
      with False c k f show ?thesis
        by (simp add: addItem_def Let_def)
    qed
  qed
qed

text \<open>
  An item with the tags \<open>A\<close> and \<open>B\<close>, added to a registry that holds a tag \<open>B\<close>: the
  collision is on the name checked second, and \<open>A\<close> is not registered afterwards.
\<close>

theorem addItem_atomic_witness:
  "fst (addItem (defineRegistryItem \<lparr>schema_name = ''s'', schema_type = Block, schema_linkable = True\<rparr>
                  [\<lparr>tag_tagName = ''A'', tag_schemaName = ''s''\<rparr>,
                   \<lparr>tag_tagName = ''B'', tag_schemaName = ''s''\<rparr>] None)
          \<lparr>items = Map.empty, tags = [''B'' \<mapsto> \<lparr>tag_tagName = ''B'', tag_schemaName = ''t''\<rparr>]\<rparr>)
     = Inl (TagAlreadyDefined ''B'')
   \<and> snd (addItem (defineRegistryItem \<lparr>schema_name = ''s'', schema_type = Block, schema_linkable = True\<rparr>
                  [\<lparr>tag_tagName = ''A'', tag_schemaName = ''s''\<rparr>,
                   \<lparr>tag_tagName = ''B'', tag_schemaName = ''s''\<rparr>] None)
          \<lparr>items = Map.empty, tags = [''B'' \<mapsto> \<lparr>tag_tagName = ''B'', tag_schemaName = ''t''\<rparr>]\<rparr>)
     = \<lparr>items = Map.empty, tags = [''B'' \<mapsto> \<lparr>tag_tagName = ''B'', tag_schemaName = ''t''\<rparr>]\<rparr>"
proof -
  let ?item = "defineRegistryItem \<lparr>schema_name = ''s'', schema_type = Block, schema_linkable = True\<rparr>
                  [\<lparr>tag_tagName = ''A'', tag_schemaName = ''s''\<rparr>,
                   \<lparr>tag_tagName = ''B'', tag_schemaName = ''s''\<rparr>] None"
  let ?reg = "\<lparr>items = Map.empty, tags = [''B'' \<mapsto> \<lparr>tag_tagName = ''B'', tag_schemaName = ''t''\<rparr>]\<rparr>"
  have e: "fst (addItem ?item ?reg) = Inl (TagAlreadyDefined ''B'')"
    by (simp add: addItem_def defineRegistryItem_def Let_def)
  with addItem_atomic [of ?item ?reg] show ?thesis
    by blast
qed

section \<open>Uniques: the raw element is assigned once\<close>

text \<open>
  Claim C5. For every unique: assigning its raw element when it already holds one fails
  and leaves the first assignment in place; assigning a raw element whose tag name is not
  the tag name of the unique's tag fails; an assignment succeeds exactly when the unique
  holds no raw element yet and the tag names are equal, and then the unique holds the
  assigned element (and is otherwise unchanged).
\<close>

theorem unique_single_assignment:
  "(\<forall>r. unique_rawElement u = Some r \<longrightarrow>
      set_rawElement v u = (Inl (UniqueAlreadyAssigned (unique_name u)), u))
   \<and> (unique_rawElement u = None \<and> raw_tagName v \<noteq> tag_tagName (unique_tag u) \<longrightarrow>
        set_rawElement v u
          = (Inl (UniqueTagMismatch (unique_name u) (tag_tagName (unique_tag u)) (raw_tagName v)), u))
   \<and> (raw_tagName v \<noteq> tag_tagName (unique_tag u) \<longrightarrow> (\<exists>e. set_rawElement v u = (Inl e, u)))
   \<and> (fst (set_rawElement v u) = Inr () \<longleftrightarrow>
        unique_rawElement u = None \<and> raw_tagName v = tag_tagName (unique_tag u))
   \<and> (fst (set_rawElement v u) = Inr () \<longrightarrow>
        snd (set_rawElement v u) = u\<lparr>unique_rawElement := Some v\<rparr>
        \<and> unique_rawElement (snd (set_rawElement v u)) = Some v)"
  by (auto simp: set_rawElement_def)

text \<open>
  The unique \<open>pUnique\<close> of the tag \<open>P\<close>: a first paragraph is assigned, a second one is
  refused and the first stays; a \<open>Bold\<close> element is refused by the unassigned unique.
\<close>

theorem unique_single_assignment_witness:
  "fst (set_rawElement
          (Raw ''h1'' ''P'' None ''paragraph'' JUndefined None None (Some ''pUnique''))
          (defineUnique ''foo'' ''pUnique'' \<lparr>tag_tagName = ''P'', tag_schemaName = ''paragraph''\<rparr>))
     = Inr ()
   \<and> unique_rawElement (snd (set_rawElement
          (Raw ''h1'' ''P'' None ''paragraph'' JUndefined None None (Some ''pUnique''))
          (defineUnique ''foo'' ''pUnique'' \<lparr>tag_tagName = ''P'', tag_schemaName = ''paragraph''\<rparr>)))
     = Some (Raw ''h1'' ''P'' None ''paragraph'' JUndefined None None (Some ''pUnique''))
   \<and> set_rawElement
          (Raw ''h2'' ''P'' None ''paragraph'' JUndefined None None (Some ''pUnique''))
          (snd (set_rawElement
            (Raw ''h1'' ''P'' None ''paragraph'' JUndefined None None (Some ''pUnique''))
            (defineUnique ''foo'' ''pUnique'' \<lparr>tag_tagName = ''P'', tag_schemaName = ''paragraph''\<rparr>)))
     = (Inl (UniqueAlreadyAssigned ''pUnique''),
        snd (set_rawElement
            (Raw ''h1'' ''P'' None ''paragraph'' JUndefined None None (Some ''pUnique''))
            (defineUnique ''foo'' ''pUnique'' \<lparr>tag_tagName = ''P'', tag_schemaName = ''paragraph''\<rparr>)))
   \<and> set_rawElement
          (Raw ''h3'' ''Bold'' None ''bold'' JUndefined None None (Some ''pUnique''))
          (defineUnique ''foo'' ''pUnique'' \<lparr>tag_tagName = ''P'', tag_schemaName = ''paragraph''\<rparr>)
     = (Inl (UniqueTagMismatch ''pUnique'' ''P'' ''Bold''),
        defineUnique ''foo'' ''pUnique'' \<lparr>tag_tagName = ''P'', tag_schemaName = ''paragraph''\<rparr>)"
proof -
  let ?u0 = "defineUnique ''foo'' ''pUnique'' \<lparr>tag_tagName = ''P'', tag_schemaName = ''paragraph''\<rparr>"
  let ?v1 = "Raw ''h1'' ''P'' None ''paragraph'' JUndefined None None (Some ''pUnique'')"
  let ?v2 = "Raw ''h2'' ''P'' None ''paragraph'' JUndefined None None (Some ''pUnique'')"
  let ?vb = "Raw ''h3'' ''Bold'' None ''bold'' JUndefined None None (Some ''pUnique'')"
  let ?u1 = "snd (set_rawElement ?v1 ?u0)"
  have free: "unique_rawElement ?u0 = None" and same: "raw_tagName ?v1 = tag_tagName (unique_tag ?u0)"
    and other: "raw_tagName ?vb \<noteq> tag_tagName (unique_tag ?u0)"
    by (simp_all add: defineUnique_def)
  from unique_single_assignment [of ?u0 ?v1] free same
  have first: "fst (set_rawElement ?v1 ?u0) = Inr ()"
    and held: "unique_rawElement ?u1 = Some ?v1"
    by blast+
  from unique_single_assignment [of ?u1 ?v2] held
  have second: "set_rawElement ?v2 ?u1 = (Inl (UniqueAlreadyAssigned (unique_name ?u1)), ?u1)"
    by blast
  have name1: "unique_name ?u1 = ''pUnique''"
    by (simp add: set_rawElement_def defineUnique_def)
  from unique_single_assignment [of ?u0 ?vb] free other
  have third: "set_rawElement ?vb ?u0
      = (Inl (UniqueTagMismatch (unique_name ?u0) (tag_tagName (unique_tag ?u0)) (raw_tagName ?vb)), ?u0)"
    by blast
  have names: "unique_name ?u0 = ''pUnique''" "tag_tagName (unique_tag ?u0) = ''P''"
    "raw_tagName ?vb = ''Bold''"
    by (simp_all add: defineUnique_def)
  from first held second third show ?thesis
    unfolding name1 names by blast
qed


section \<open>The walker visits in order, skips and stops\<close>

lemma stops_simps [simp]:
  "stops d [] = False"
  "stops d (x # xs) = (d x = WalkStop \<or> stops d xs)"
  "stops d (xs @ ys) = (stops d xs \<or> stops d ys)"
  by (simp_all add: stops_def)

lemma up_to_stop_append:
  "up_to_stop d (xs @ ys) = (if stops d xs then up_to_stop d xs else xs @ up_to_stop d ys)"
  by (induction xs) auto

lemma up_to_stop_all: "\<not> stops d xs \<Longrightarrow> up_to_stop d xs = xs"
  by (induction xs) auto

lemma visit_slots_filter:
  "visit_slots d cs = concat (map (visit_order d) (filter_Boolean cs))"
  by (induction cs rule: filter_Boolean.induct) simp_all

lemma walk_observed:
  fixes d :: "'a \<Rightarrow> walk_result"
  shows "walkElements (observe d) t visited =
     Inr (if stops d (visit_order d t) then WalkStop else WalkVoid,
          visited @ up_to_stop d (visit_order d t))"
  and "walk_children (observe d) ts visited =
     Inr (if stops d (concat (map (visit_order d) ts)) then WalkStop else WalkVoid,
          visited @ up_to_stop d (concat (map (visit_order d) ts)))"
proof (induction "observe d" t visited and "observe d" ts visited
    rule: walkElements_walk_children.induct)
  case (1 element children st)
  show ?case
  proof (cases "d element = WalkStop")
    case True
    then show ?thesis by (simp add: observe_def)
  next
    case ns: False
    show ?thesis
    proof (cases "d element = WalkNoDeeper")
      case True
      then show ?thesis by (simp add: observe_def)
    next
      case nd: False
      show ?thesis
      proof (cases children)
        case None
        with ns nd show ?thesis by (simp add: observe_def)
      next
        case (Some cs)
        have "observe d element st = Inr (d element, st @ [element])"
          by (simp add: observe_def)
        from "1.hyps" [OF this refl ns nd Some] ns nd Some show ?thesis
          by (simp add: observe_def visit_slots_filter)
      qed
    qed
  qed
next
  case (2 st)
  show ?case by simp
next
  case (3 child rest st)
  show ?case
  proof (cases "stops d (visit_order d child)")
    case True
    with "3.hyps"(1) show ?thesis
      by (simp add: up_to_stop_append)
  next
    case False
    with "3.hyps"(1) have w: "walkElements (observe d) child st
        = Inr (WalkVoid, st @ up_to_stop d (visit_order d child))"
      by simp
    from "3.hyps"(2) [OF w refl] False w show ?thesis
      by (simp add: up_to_stop_append up_to_stop_all)
  qed
qed

text \<open>
  Claim C9. For every tree and every callback that decides by the element, the walker
  calls the callback on exactly the elements of \<open>visit_order\<close> (an element before its
  children, children strictly from left to right, a child's whole subtree before the next
  sibling, falsy slots never passed to the callback, the children of a
  \<^verbatim>\<open>WalkNoDeeper\<close> element left out while its following siblings are visited), up to and
  with the first element on which the callback returns \<^verbatim>\<open>WalkStop\<close>; it returns
  \<^verbatim>\<open>WalkStop\<close> exactly when there is such an element, and visits nothing after it.
  For any callback, with any effects: when it returns \<^verbatim>\<open>WalkStop\<close> on an element the
  walk of that element returns \<^verbatim>\<open>WalkStop\<close> at once, in the state the callback left,
  and a \<^verbatim>\<open>WalkStop\<close> from a child ends the loop over its siblings in that state; when
  it returns \<^verbatim>\<open>WalkNoDeeper\<close> the walk of that element is over in the state the callback
  left, and the loop goes on with the next sibling; a falsy slot changes nothing.
\<close>

theorem walkElements_order:
  fixes d :: "'a \<Rightarrow> walk_result" and step :: "'b \<Rightarrow> 's \<Rightarrow> error + (walk_result \<times> 's)"
  shows
  "walkElements (observe d) t visited =
     Inr (if stops d (visit_order d t) then WalkStop else WalkVoid,
          visited @ up_to_stop d (visit_order d t))
   \<and> (\<forall>st1. step element st = Inr (WalkStop, st1) \<longrightarrow>
         walkElements step (Node element children) st = Inr (WalkStop, st1))
   \<and> (\<forall>st1. step element st = Inr (WalkNoDeeper, st1) \<longrightarrow>
         walkElements step (Node element children) st = Inr (WalkVoid, st1))
   \<and> (\<forall>st1. walkElements step child st = Inr (WalkStop, st1) \<longrightarrow>
         walk_children step (child # rest) st = Inr (WalkStop, st1))
   \<and> (\<forall>st1. walkElements step child st = Inr (WalkVoid, st1) \<longrightarrow>
         walk_children step (child # rest) st = walk_children step rest st1)
   \<and> walkElements step (Node element (Some (None # slots))) st
       = walkElements step (Node element (Some slots)) st"
proof -
  have "walkElements step (Node element (Some (None # slots))) st
       = walkElements step (Node element (Some slots)) st"
    by (simp split: sum.splits)
  with walk_observed(1) [of d t visited] show ?thesis
    by simp
qed

theorem walkElements_order_witness:
  "walkElements (observe example_decision) example_tree []
     = Inr (WalkStop, [''r'', ''a'', ''a1'', ''b'', ''c''])
   \<and> observe example_decision ''c'' [''r''] = Inr (WalkStop, [''r'', ''c''])
   \<and> walkElements (observe example_decision) (Node ''c'' (Some [Some (Node ''c1'' None)])) [''r'']
       = Inr (WalkStop, [''r'', ''c''])
   \<and> observe example_decision ''b'' [''r''] = Inr (WalkNoDeeper, [''r'', ''b''])
   \<and> walkElements (observe example_decision) (Node ''b'' (Some [Some (Node ''b1'' None)])) [''r'']
       = Inr (WalkVoid, [''r'', ''b''])
   \<and> walk_children (observe example_decision)
        [Node ''c'' (Some [Some (Node ''c1'' None)]), Node ''e'' None] [''r'']
       = Inr (WalkStop, [''r'', ''c''])"
proof -
  have stop_c: "observe example_decision ''c'' [''r''] = Inr (WalkStop, [''r'', ''c''])"
    and skip_b: "observe example_decision ''b'' [''r''] = Inr (WalkNoDeeper, [''r'', ''b''])"
    by (simp_all add: observe_def example_decision_def)
  note w = walkElements_order [of example_decision example_tree "[]"
      "observe example_decision" "''c''" "[''r'']" "Some [Some (Node ''c1'' None)]"
      "Node ''c'' (Some [Some (Node ''c1'' None)])" "[Node ''e'' None]"]
  note v = walkElements_order [of example_decision example_tree "[]"
      "observe example_decision" "''b''" "[''r'']" "Some [Some (Node ''b1'' None)]"]
  from w have "walkElements (observe example_decision) example_tree []
     = Inr (WalkStop, [''r'', ''a'', ''a1'', ''b'', ''c''])"
    by (simp add: example_tree_def example_decision_def)
  moreover from w stop_c
  have c: "walkElements (observe example_decision) (Node ''c'' (Some [Some (Node ''c1'' None)])) [''r'']
       = Inr (WalkStop, [''r'', ''c''])"
    by blast
  moreover from w c
  have "walk_children (observe example_decision)
        [Node ''c'' (Some [Some (Node ''c1'' None)]), Node ''e'' None] [''r'']
       = Inr (WalkStop, [''r'', ''c''])"
    by blast
  moreover from v skip_b
  have "walkElements (observe example_decision) (Node ''b'' (Some [Some (Node ''b1'' None)])) [''r'']
       = Inr (WalkVoid, [''r'', ''b''])"
    by blast
  ultimately show ?thesis
    using stop_c skip_b by blast
qed

section \<open>The identifier of one element\<close>

lemma dedupe_first_free:
  assumes "id' = candidate baseId n"
  shows "\<exists>k \<ge> n. dedupe ids uniqueIds baseId id' n = candidate baseId k
           \<and> candidate baseId k \<notin> set ids \<union> set uniqueIds
           \<and> (\<forall>j. n \<le> j \<and> j < k \<longrightarrow> candidate baseId j \<in> set ids \<union> set uniqueIds)"
  using assms
proof (induction ids uniqueIds baseId id' n rule: dedupe.induct)
  case (1 ids uniqueIds baseId id' n)
  show ?case
  proof (cases "id' \<in> set ids \<or> id' \<in> set uniqueIds")
    case True
    have "baseId @ ''-'' @ decimal (n + 1) = candidate baseId (n + 1)"
      by (simp add: candidate_def)
    from "1.IH" [OF True this] obtain k where k: "n + 1 \<le> k"
      "dedupe ids uniqueIds baseId (baseId @ ''-'' @ decimal (n + 1)) (n + 1) = candidate baseId k"
      "candidate baseId k \<notin> set ids \<union> set uniqueIds"
      "\<forall>j. n + 1 \<le> j \<and> j < k \<longrightarrow> candidate baseId j \<in> set ids \<union> set uniqueIds"
      by blast
    have "\<forall>j. n \<le> j \<and> j < k \<longrightarrow> candidate baseId j \<in> set ids \<union> set uniqueIds"
    proof (intro allI impI)
      fix j assume j: "n \<le> j \<and> j < k"
      show "candidate baseId j \<in> set ids \<union> set uniqueIds"
      proof (cases "j = n")
        case True
        with \<open>id' \<in> set ids \<or> id' \<in> set uniqueIds\<close> "1.prems" show ?thesis by auto
      next
        case False
        with j k(4) show ?thesis by simp
      qed
    qed
    with k True show ?thesis
      by (subst dedupe.simps) (intro exI [of _ k], simp)
  next
    case False
    with "1.prems" show ?thesis
      by (subst dedupe.simps) (intro exI [of _ n], auto)
  qed
qed

text \<open>
  Claim C1, as the code has it. For every raw element given to \<^verbatim>\<open>createId\<close> with the
  sets \<open>ids\<close> and \<open>uniqueIds\<close>: if the element has a unique name that is not empty, the
  identifier is exactly the kebab-case of that name, with no suffix, the call fails with
  the duplicate-unique-id error exactly when that identifier is already in \<open>ids\<close>
  (\<open>uniqueIds\<close> is not consulted), and otherwise the identifier is added to \<open>ids\<close>. If it
  has no unique name, or the empty one, the base identifier is the kebab-cased slug when
  it has a slug that is not empty and else schema name, hyphen, hash; the identifier is
  the first of base, base-1, base-2, ... that is in neither \<open>ids\<close> nor \<open>uniqueIds\<close> (the
  loop always finds one), and it is added to \<open>ids\<close>.
\<close>

theorem createId_contract:
  "(\<forall>name. raw_uniqueName r = Some name \<and> name \<noteq> [] \<longrightarrow>
      createId kebab ids uniqueIds r =
        (if kebab name \<in> set ids then Inl (DuplicateUniqueId name (kebab name))
         else Inr (kebab name, ids @ [kebab name])))
   \<and> (raw_uniqueName r = None \<or> raw_uniqueName r = Some [] \<longrightarrow>
        (\<exists>k. createId kebab ids uniqueIds r
                = Inr (candidate (base_identifier kebab r) k,
                       ids @ [candidate (base_identifier kebab r) k])
            \<and> candidate (base_identifier kebab r) k \<notin> set ids \<union> set uniqueIds
            \<and> (\<forall>j < k. candidate (base_identifier kebab r) j \<in> set ids \<union> set uniqueIds)))"
proof (intro conjI allI impI)
  fix name
  assume "raw_uniqueName r = Some name \<and> name \<noteq> []"
  then show "createId kebab ids uniqueIds r =
        (if kebab name \<in> set ids then Inl (DuplicateUniqueId name (kebab name))
         else Inr (kebab name, ids @ [kebab name]))"
    by (simp add: createId_def truthy_string_def uniqueName2Id_def Set_add_def Let_def)
next
  assume a: "raw_uniqueName r = None \<or> raw_uniqueName r = Some []"
  let ?b = "base_identifier kebab r"
  have b: "(if truthy_string (raw_slug r) then kebab (the (raw_slug r))
                else raw_schemaName r @ ''-'' @ raw_hash r) = ?b"
    by (simp add: base_identifier_def truthy_string_def split: option.splits)
  from dedupe_first_free [of ?b ?b 0 ids uniqueIds]
  obtain k where k: "dedupe ids uniqueIds ?b ?b 0 = candidate ?b k"
    "candidate ?b k \<notin> set ids \<union> set uniqueIds"
    "\<forall>j. 0 \<le> j \<and> j < k \<longrightarrow> candidate ?b j \<in> set ids \<union> set uniqueIds"
    by (auto simp: candidate_def)
  from a have "\<not> truthy_string (raw_uniqueName r)"
    by (auto simp: truthy_string_def)
  with k b have "createId kebab ids uniqueIds r = Inr (candidate ?b k, ids @ [candidate ?b k])"
    by (simp add: createId_def Let_def Set_add_def)
  with k show "\<exists>k. createId kebab ids uniqueIds r = Inr (candidate ?b k, ids @ [candidate ?b k])
            \<and> candidate ?b k \<notin> set ids \<union> set uniqueIds
            \<and> (\<forall>j < k. candidate ?b j \<in> set ids \<union> set uniqueIds)"
    by (intro exI [of _ k]) simp
qed

lemma kebabCase_examples:
  "kebabCase ''myAnchor'' = ''my-anchor''"
  "kebabCase ''myCustomSlug'' = ''my-custom-slug''"
  "kebabCase ''sameName'' = ''same-name''"
  "kebabCase ''intro'' = ''intro''"
  "kebabCase [] = []"
  by (simp_all add: kebabCase_def is_upper_def to_lower_def)

text \<open>
  The anchor \<open>myAnchor\<close> gets \<open>my-anchor\<close>, and is refused when \<open>my-anchor\<close> is taken;
  an element with the slug \<open>intro\<close> gets one of the candidates of \<open>intro\<close>, here
  \<open>intro-2\<close>, when \<open>intro\<close> is in \<open>ids\<close> and \<open>intro-1\<close> in \<open>uniqueIds\<close>.
\<close>

theorem createId_contract_witness:
  "createId kebabCase [''x''] []
      (Raw ''h1'' ''P'' None ''paragraph'' JUndefined None None (Some ''myAnchor''))
     = Inr (''my-anchor'', [''x'', ''my-anchor''])
   \<and> createId kebabCase [''my-anchor''] []
      (Raw ''h1'' ''P'' None ''paragraph'' JUndefined None None (Some ''myAnchor''))
     = Inl (DuplicateUniqueId ''myAnchor'' ''my-anchor'')
   \<and> (\<exists>k. createId kebabCase [''intro''] [''intro-1'']
            (Raw ''h1'' ''P'' (Some ''intro'') ''paragraph'' JUndefined None None None)
           = Inr (candidate ''intro'' k, [''intro'', candidate ''intro'' k])
         \<and> candidate ''intro'' k \<notin> set [''intro''] \<union> set [''intro-1''])
   \<and> createId kebabCase [''intro''] [''intro-1'']
            (Raw ''h1'' ''P'' (Some ''intro'') ''paragraph'' JUndefined None None None)
       = Inr (''intro-2'', [''intro'', ''intro-2''])"
proof -
  let ?a = "Raw ''h1'' ''P'' None ''paragraph'' JUndefined None None (Some ''myAnchor'')"
  let ?s = "Raw ''h1'' ''P'' (Some ''intro'') ''paragraph'' JUndefined None None None"
  have named: "raw_uniqueName ?a = Some ''myAnchor'' \<and> ''myAnchor'' \<noteq> []"
    and unnamed: "raw_uniqueName ?s = None \<or> raw_uniqueName ?s = Some []"
    by simp_all
  from createId_contract [of ?a kebabCase "[''x'']" "[]"] named
  have "createId kebabCase [''x''] [] ?a = Inr (''my-anchor'', [''x'', ''my-anchor''])"
    by (simp add: kebabCase_examples)
  moreover from createId_contract [of ?a kebabCase "[''my-anchor'']" "[]"] named
  have "createId kebabCase [''my-anchor''] [] ?a = Inl (DuplicateUniqueId ''myAnchor'' ''my-anchor'')"
    by (simp add: kebabCase_examples)
  moreover have "base_identifier kebabCase ?s = ''intro''"
    by (simp add: base_identifier_def kebabCase_examples)
  with createId_contract [of ?s kebabCase "[''intro'']" "[''intro-1'']"] unnamed
  have "\<exists>k. createId kebabCase [''intro''] [''intro-1''] ?s
           = Inr (candidate ''intro'' k, [''intro'', candidate ''intro'' k])
         \<and> candidate ''intro'' k \<notin> set [''intro''] \<union> set [''intro-1'']"
    by auto
  moreover have "createId kebabCase [''intro''] [''intro-1''] ?s
       = Inr (''intro-2'', [''intro'', ''intro-2''])"
    by (simp add: createId_def truthy_string_def dedupe.simps Set_add_def kebabCase_examples
        decimal.simps digit_def Let_def)
  ultimately show ?thesis
    by blast
qed

text \<open>
  The claim as the specification states it fails for the empty string, which both tests
  of \<^verbatim>\<open>createId\<close> take for false. An element whose unique name is the empty string gets
  no identifier made of that name but the one made of schema name and hash; and so does
  an element whose slug is the empty string, where the kebab-cased slug is the empty
  string too.
\<close>

theorem createId_empty_string:
  "raw_uniqueName (Raw ''h1'' ''P'' None ''paragraph'' JUndefined None None (Some [])) = Some []
   \<and> createId kebabCase [] []
        (Raw ''h1'' ''P'' None ''paragraph'' JUndefined None None (Some []))
       = Inr (''paragraph-h1'', [''paragraph-h1''])
   \<and> raw_slug (Raw ''h1'' ''P'' (Some []) ''paragraph'' JUndefined None None None) = Some []
   \<and> createId kebabCase [] []
        (Raw ''h1'' ''P'' (Some []) ''paragraph'' JUndefined None None None)
       = Inr (''paragraph-h1'', [''paragraph-h1''])
   \<and> kebabCase [] = []"
  by (simp add: createId_def truthy_string_def dedupe.simps Set_add_def Let_def
      kebabCase_examples)

section \<open>The identifiers assigned in one resolution are distinct\<close>

lemma createId_fresh:
  assumes "createId kebab ids uniqueIds r = Inr (i, ids')"
  shows "i \<notin> set ids \<and> ids' = ids @ [i]"
proof (cases "truthy_string (raw_uniqueName r)")
  case True
  with assms show ?thesis
    by (auto simp: createId_def Let_def Set_add_def split: if_splits)
next
  case False
  let ?b = "if truthy_string (raw_slug r) then kebab (the (raw_slug r))
            else raw_schemaName r @ ''-'' @ raw_hash r"
  from dedupe_first_free [of ?b ?b 0 ids uniqueIds]
  have "dedupe ids uniqueIds ?b ?b 0 \<notin> set ids"
    by (auto simp: candidate_def)
  with False assms show ?thesis
    by (auto simp: createId_def Let_def Set_add_def)
qed

lemma call_pre_ids: "call_pre env r st = (x, st1) \<Longrightarrow> res_ids st1 = res_ids st"
  by (auto simp: call_pre_def log_event_def split: option.splits)

lemma call_post_ids: "call_post env p st = (x, st1) \<Longrightarrow> res_ids st1 = res_ids st"
  by (auto simp: call_post_def log_event_def split: option.splits)

lemma prose_ids_set_id [simp]:
  "prose_ids (set_id v p) =
     (case prose_children p of None \<Rightarrow> [] | Some cs \<Rightarrow> concat (map prose_ids cs))
       @ (case v of None \<Rightarrow> [] | Some x \<Rightarrow> [x])"
  by (cases p) simp

lemma prose_ids_set_uniqueName [simp]:
  "prose_ids (set_prose_uniqueName v p) = prose_ids p"
  by (cases p) simp

lemma finish_element_ids:
  assumes "finish_element env r kids st = (Inr p, st')" and "distinct (res_ids st)"
  shows "\<exists>own. prose_ids p = kids_ids kids @ own \<and> res_ids st' = res_ids st @ own
           \<and> distinct (res_ids st')"
  using assms
  by (auto simp: finish_element_def Let_def log_event_def call_post_def kids_ids_def
      split: sum.splits if_splits prod.splits option.splits dest!: createId_fresh)

lemma resolve_ids:
  shows "resolveRecursive env r st = (Inr p, st') \<Longrightarrow> distinct (res_ids st) \<Longrightarrow>
           res_ids st' = res_ids st @ prose_ids p \<and> distinct (res_ids st')"
    and "resolve_children env rs acc st = (Inr ps, st') \<Longrightarrow> distinct (res_ids st) \<Longrightarrow>
           (\<exists>new. ps = acc @ new \<and> res_ids st' = res_ids st @ concat (map prose_ids new)
              \<and> distinct (res_ids st'))"
proof (induction env r st and env rs acc st arbitrary: p st' and ps st'
    rule: resolveRecursive_resolve_children.induct)
  case (1 env rawElement st)
  from "1.prems"(1) obtain st1 where pre: "call_pre env rawElement st = (None, st1)"
    by (subst (asm) resolveRecursive.simps) (auto split: prod.splits option.splits)
  then have ids1: "res_ids st1 = res_ids st"
    by (rule call_pre_ids)
  show ?case
  proof (cases "raw_children rawElement")
    case None
    with "1.prems"(1) pre have "finish_element env rawElement None st1 = (Inr p, st')"
      by (subst (asm) resolveRecursive.simps) simp
    from "1.prems"(2) ids1 have "distinct (res_ids st1)"
      by simp
    from finish_element_ids [OF \<open>finish_element env rawElement None st1 = (Inr p, st')\<close> this]
    obtain own where "prose_ids p = kids_ids None @ own" "res_ids st' = res_ids st1 @ own"
      "distinct (res_ids st')"
      by blast
    with ids1 show ?thesis
      by (simp add: kids_ids_def)
  next
    case (Some cs)
    with "1.prems"(1) pre obtain kids st2 where
      kids: "resolve_children env cs [] st1 = (Inr kids, st2)"
      and fin: "finish_element env rawElement (Some kids) st2 = (Inr p, st')"
      by (subst (asm) resolveRecursive.simps) (auto split: prod.splits sum.splits)
    from "1.prems"(2) ids1 have "distinct (res_ids st1)"
      by simp
    from "1.IH" [OF pre [symmetric] refl Some kids this] obtain new where
      "kids = [] @ new" "res_ids st2 = res_ids st1 @ concat (map prose_ids new)"
      and d2: "distinct (res_ids st2)"
      by blast
    with ids1 have k: "res_ids st2 = res_ids st @ concat (map prose_ids kids)"
      by simp
    from finish_element_ids [OF fin d2] obtain own where
      "prose_ids p = kids_ids (Some kids) @ own" "res_ids st' = res_ids st2 @ own"
      "distinct (res_ids st')"
      by blast
    with k show ?thesis
      by (simp add: kids_ids_def)
  qed
next
  case (2 env resolvedChildren st)
  then show ?case by simp
next
  case (3 env child rest resolvedChildren st)
  from "3.prems"(1) obtain c st1 where
    c: "resolveRecursive env child st = (Inr c, st1)"
    and r: "resolve_children env rest (resolvedChildren @ [c]) st1 = (Inr ps, st')"
    by (auto split: prod.splits sum.splits)
  from "3.IH"(1) [OF c "3.prems"(2)]
  have c1: "res_ids st1 = res_ids st @ prose_ids c" and d1: "distinct (res_ids st1)"
    by blast+
  from "3.IH"(2) [OF c [symmetric] refl r d1] obtain new where
    "ps = (resolvedChildren @ [c]) @ new"
    "res_ids st' = res_ids st1 @ concat (map prose_ids new)" "distinct (res_ids st')"
    by blast
  with c1 show ?case
    by (intro exI [of _ "c # new"]) simp
qed


lemma fold_Set_add:
  "distinct acc \<Longrightarrow> distinct (fold Set_add l acc) \<and> set (fold Set_add l acc) = set acc \<union> set l"
  by (induction l arbitrary: acc) (auto simp: Set_add_def)

lemma new_Set_distinct: "distinct (new_Set seed)"
  using fold_Set_add [of "[]"] by (cases seed) (simp_all add: new_Set_def)

lemma new_Set_Some: "set (new_Set (Some l)) = set l"
  using fold_Set_add [of "[]" l] by (simp add: new_Set_def)

text \<open>
  Claim C3. For every raw tree and every set of identifiers the caller supplies: when
  \<^verbatim>\<open>resolveRawElement\<close> returns, the identifiers it has assigned (the \<^verbatim>\<open>id\<close>s of
  the resolved tree) are pairwise distinct, so no two elements of the resolved tree carry
  the same \<^verbatim>\<open>id\<close>; none of them is one of the identifiers supplied; and the set it
  returns is the supplied set followed by the assigned identifiers in the order of
  assignment. (Without identity assignment there are none.)
\<close>

theorem resolved_ids_distinct:
  assumes "resolveRawElement kebab reg rawElement linkable pre post seed = (Inr res, tr)"
  shows "distinct (prose_ids (resolved_proseElement res))
         \<and> (\<forall>l. seed = Some l \<longrightarrow> set (prose_ids (resolved_proseElement res)) \<inter> set l = {})
         \<and> resolved_ids res = new_Set seed @ prose_ids (resolved_proseElement res)"
proof -
  from assms obtain uniqueIds st p where
    run: "resolveRecursive \<lparr>env_kebab = kebab, env_registry = reg, env_linkable = linkable,
                      env_pre = pre, env_post = post, env_uniqueIds = uniqueIds\<rparr> rawElement
            \<lparr>res_ids = new_Set seed, res_uniques = Map.empty, res_trace = []\<rparr> = (Inr p, st)"
    and res: "res = \<lparr>resolved_proseElement = p, resolved_uniques = res_uniques st,
                      resolved_ids = res_ids st\<rparr>"
    by (auto simp: resolveRawElement_def Let_def split: sum.splits prod.splits)
  have "distinct (res_ids \<lparr>res_ids = new_Set seed, res_uniques = Map.empty, res_trace = []\<rparr>)"
    using new_Set_distinct [of seed] by simp
  note both = resolve_ids(1) [OF run this]
  have sel: "res_ids \<lparr>res_ids = new_Set seed, res_uniques = Map.empty, res_trace = []\<rparr> = new_Set seed"
    by simp
  from both have ids: "res_ids st = new_Set seed @ prose_ids p"
    unfolding sel by (rule conjunct1)
  from both have dd: "distinct (res_ids st)"
    by (rule conjunct2)
  from dd have "distinct (new_Set seed @ prose_ids p)"
    unfolding ids .
  then have d: "distinct (prose_ids p)" and i: "set (prose_ids p) \<inter> set (new_Set seed) = {}"
    by auto
  have "\<forall>l. seed = Some l \<longrightarrow> set (prose_ids p) \<inter> set l = {}"
    using i new_Set_Some by auto
  with res ids d show ?thesis
    by simp
qed

lemmas resolve_eval =
  resolveRawElement_def prescan_def prescan_step_def new_Set_def Set_add_def
  resolveRecursive.simps finish_element_def call_pre_def call_post_def log_event_def
  getSchema_def createId_def uniqueName2Id_def truthy_string_def dedupe.simps
  decimal.simps digit_def Let_def defineRegistryItem_def mixSchema_def

lemma two_intros_run:
  "resolveRawElement kebabCase example_registry two_intros True None None (Some [''x''])
     = (Inr \<lparr>resolved_proseElement =
               Prose ''mix'' JUndefined None
                 (Some [Prose ''paragraph'' JUndefined None None (Some ''intro'') None,
                        Prose ''paragraph'' JUndefined None None (Some ''intro-1'') None])
                 None None,
             resolved_uniques = Map.empty,
             resolved_ids = [''x'', ''intro'', ''intro-1'']\<rparr>,
        [Constructed (Prose ''paragraph'' JUndefined None None None None),
         Constructed (Prose ''paragraph'' JUndefined None None None None),
         Constructed (Prose ''mix'' JUndefined None
                 (Some [Prose ''paragraph'' JUndefined None None (Some ''intro'') None,
                        Prose ''paragraph'' JUndefined None None (Some ''intro-1'') None])
                 None None)])"
  by (simp add: resolve_eval example_registry_def two_intros_def paragraphSchema_def
      kebabCase_examples)

text \<open>
  The two paragraphs with the slug \<open>intro\<close>, resolved with \<open>x\<close> supplied: they get
  \<open>intro\<close> and \<open>intro-1\<close>, in this order.
\<close>

theorem resolved_ids_distinct_witness:
  "resolved_ids (projr (fst (resolveRawElement kebabCase example_registry two_intros True
                         None None (Some [''x''])))) = [''x'', ''intro'', ''intro-1'']
   \<and> prose_ids (resolved_proseElement (projr (fst (resolveRawElement kebabCase example_registry
                         two_intros True None None (Some [''x''])))))
       = [''intro'', ''intro-1'']
   \<and> distinct (prose_ids (resolved_proseElement (projr (fst (resolveRawElement kebabCase
                         example_registry two_intros True None None (Some [''x'']))))))
   \<and> set (prose_ids (resolved_proseElement (projr (fst (resolveRawElement kebabCase
                         example_registry two_intros True None None (Some [''x'']))))))
         \<inter> set [''x''] = {}"
proof -
  note run = two_intros_run
  from resolved_ids_distinct [OF run] have
    "distinct (prose_ids (resolved_proseElement (projr (fst (resolveRawElement kebabCase
                         example_registry two_intros True None None (Some [''x'']))))))"
    and "set (prose_ids (resolved_proseElement (projr (fst (resolveRawElement kebabCase
                         example_registry two_intros True None None (Some [''x'']))))))
         \<inter> set [''x''] = {}"
    unfolding run by simp_all
  moreover have "resolved_ids (projr (fst (resolveRawElement kebabCase example_registry two_intros
                         True None None (Some [''x''])))) = [''x'', ''intro'', ''intro-1'']"
    and "prose_ids (resolved_proseElement (projr (fst (resolveRawElement kebabCase example_registry
                         two_intros True None None (Some [''x''])))))
       = [''intro'', ''intro-1'']"
    unfolding run by simp_all
  ultimately show ?thesis
    by blast
qed

section \<open>The pre-scan and duplicate anchors\<close>

lemma scan_append:
  "scan kebab ids (xs @ ys) acc =
     (case scan kebab ids xs acc of Inl e \<Rightarrow> Inl e | Inr acc1 \<Rightarrow> scan kebab ids ys acc1)"
  by (induction xs arbitrary: acc) simp_all

lemma filter_Boolean_Some: "filter_Boolean (map (\<lambda>x. Some (f x)) xs) = map f xs"
  by (induction xs) simp_all

lemma raw_node_eq:
  "raw_node r = Node r (map_option (map (\<lambda>x. Some (raw_node x))) (raw_children r))"
  by (cases r) simp

lemma anchor_names_eq:
  "anchor_names r =
     (if truthy_string (raw_uniqueName r) then [the (raw_uniqueName r)] else [])
       @ (case raw_children r of None \<Rightarrow> [] | Some cs \<Rightarrow> concat (map anchor_names cs))"
  by (cases r) (simp add: truthy_string_def split: option.splits)

lemma prescan_walk:
  shows "step = prescan_step kebab ids \<Longrightarrow> t = raw_node r \<Longrightarrow>
           walkElements step t acc = scanned (scan kebab ids (anchor_names r) acc)"
    and "step = prescan_step kebab ids \<Longrightarrow> ts = map raw_node rs \<Longrightarrow>
           walk_children step ts acc = scanned (scan kebab ids (concat (map anchor_names rs)) acc)"
proof (induction step t acc and step ts acc arbitrary: r and rs
    rule: walkElements_walk_children.induct)
  case (1 step element children st)
  from "1.prems"(2) have el: "element = r"
    and ch: "children = map_option (map (\<lambda>x. Some (raw_node x))) (raw_children r)"
    using raw_node_eq [of r] by simp_all
  show ?case
  proof (cases "truthy_string (raw_uniqueName r)")
    case False
    then have s: "step element st = Inr (WalkVoid, st)"
      using "1.prems"(1) el by (simp add: prescan_step_def)
    show ?thesis
    proof (cases "raw_children r")
      case None
      with s ch False show ?thesis
        by (simp add: anchor_names_eq [of r] scanned_def)
    next
      case (Some cs)
      with ch have c: "children = Some (map (\<lambda>x. Some (raw_node x)) cs)"
        by simp
      have f: "filter_Boolean (map (\<lambda>x. Some (raw_node x)) cs) = map raw_node cs"
        by (rule filter_Boolean_Some)
      from "1.IH" [OF s refl _ _ c "1.prems"(1) f]
      have "walk_children step (filter_Boolean (map (\<lambda>x. Some (raw_node x)) cs)) st
              = scanned (scan kebab ids (concat (map anchor_names cs)) st)"
        by simp
      with s c Some False show ?thesis
        by (simp add: anchor_names_eq [of r])
    qed
  next
    case True
    let ?name = "the (raw_uniqueName r)"
    show ?thesis
    proof (cases "kebab ?name \<in> set ids")
      case dup: True
      with True "1.prems"(1) el have "step element st = Inl (DuplicateUniqueId ?name (kebab ?name))"
        by (simp add: prescan_step_def uniqueName2Id_def Let_def)
      with True dup show ?thesis
        by (simp add: anchor_names_eq [of r] scanned_def)
    next
      case nodup: False
      with True "1.prems"(1) el
      have s: "step element st = Inr (WalkVoid, Set_add (kebab ?name) st)"
        by (simp add: prescan_step_def uniqueName2Id_def Let_def)
      show ?thesis
      proof (cases "raw_children r")
        case None
        with s ch True nodup show ?thesis
          by (simp add: anchor_names_eq [of r] scanned_def)
      next
        case (Some cs)
        with ch have c: "children = Some (map (\<lambda>x. Some (raw_node x)) cs)"
          by simp
        have f: "filter_Boolean (map (\<lambda>x. Some (raw_node x)) cs) = map raw_node cs"
          by (rule filter_Boolean_Some)
        from "1.IH" [OF s refl _ _ c "1.prems"(1) f]
        have "walk_children step (filter_Boolean (map (\<lambda>x. Some (raw_node x)) cs))
                (Set_add (kebab ?name) st)
              = scanned (scan kebab ids (concat (map anchor_names cs)) (Set_add (kebab ?name) st))"
          by simp
        with s c Some True nodup show ?thesis
          by (simp add: anchor_names_eq [of r])
      qed
    qed
  qed
next
  case (2 step st)
  then show ?case by (simp add: scanned_def)
next
  case (3 step child rest st)
  from "3.prems"(2) obtain c cs where rs: "rs = c # cs" and child: "child = raw_node c"
    and rest: "rest = map raw_node cs"
    by auto
  from "3.IH"(1) [OF "3.prems"(1) child]
  have w: "walkElements step child st = scanned (scan kebab ids (anchor_names c) st)" .
  show ?case
  proof (cases "scan kebab ids (anchor_names c) st")
    case (Inl e)
    with w rs show ?thesis
      by (simp add: scan_append scanned_def)
  next
    case (Inr acc1)
    with w have w1: "walkElements step child st = Inr (WalkVoid, acc1)"
      by (simp add: scanned_def)
    from "3.IH"(2) [OF w1 refl _ "3.prems"(1) rest]
    have "walk_children step rest acc1 = scanned (scan kebab ids (concat (map anchor_names cs)) acc1)"
      by simp
    with w1 Inr rs show ?thesis
      by (simp add: scan_append)
  qed
qed

lemma linkable_anchor_ids_eq:
  "linkable_anchor_ids kebab reg r =
     (case raw_children r of None \<Rightarrow> []
      | Some cs \<Rightarrow> concat (map (linkable_anchor_ids kebab reg) cs))
       @ own_anchor_id kebab reg r"
  by (cases r) simp

lemma createId_anchor:
  assumes "raw_uniqueName r = Some name" and "name \<noteq> []"
    and "createId kebab ids uniqueIds r = Inr (i, ids')"
  shows "i = kebab name"
  using assms
  by (auto simp: createId_def truthy_string_def uniqueName2Id_def Let_def split: if_splits)

lemma prose_id_set_id [simp]: "prose_id (set_id v p) = v"
  by (cases p) simp

lemma prose_id_set_uniqueName [simp]: "prose_id (set_prose_uniqueName v p) = prose_id p"
  by (cases p) simp

lemma finish_element_own_id:
  assumes "finish_element env r kids st = (Inr p, st')" and "env_linkable env"
  shows "set (own_anchor_id (env_kebab env) (env_registry env) r)
           \<subseteq> set (case prose_id p of None \<Rightarrow> [] | Some x \<Rightarrow> [x])"
proof (cases "own_anchor_id (env_kebab env) (env_registry env) r = []")
  case True
  then show ?thesis by simp
next
  case False
  then obtain name sch where n: "raw_uniqueName r = Some name" "name \<noteq> []"
    and sch: "getSchema (env_registry env) (raw_schemaName r) = Inr sch" "schema_linkable sch"
    and own: "own_anchor_id (env_kebab env) (env_registry env) r = [env_kebab env name]"
    by (auto simp: own_anchor_id_def split: option.splits if_splits sum.splits)
  from assms sch obtain i ids' where
    c: "createId (env_kebab env) (res_ids (log_event (Constructed
            (Prose (schema_name sch) (raw_data r) (raw_storageKey r) kids None None)) st))
          (env_uniqueIds env) r = Inr (i, ids')"
    and p: "prose_id p = Some i"
    by (auto simp: finish_element_def Let_def call_post_def
        split: sum.splits prod.splits option.splits if_splits)
  from createId_anchor [OF n c] p own show ?thesis
    by simp
qed

lemma finish_element_own:
  assumes "finish_element env r kids st = (Inr p, st')" and "distinct (res_ids st)"
  shows "prose_ids p = kids_ids kids @ (case prose_id p of None \<Rightarrow> [] | Some x \<Rightarrow> [x])
         \<and> res_ids st' = res_ids st @ (case prose_id p of None \<Rightarrow> [] | Some x \<Rightarrow> [x])
         \<and> distinct (res_ids st')"
  using assms
  by (auto simp: finish_element_def Let_def log_event_def call_post_def kids_ids_def
      split: sum.splits if_splits prod.splits option.splits dest!: createId_fresh)

lemma finish_element_anchor:
  assumes "finish_element env r kids st = (Inr p, st')" and "distinct (res_ids st)"
    and "env_linkable env"
  shows "\<exists>own. prose_ids p = kids_ids kids @ own \<and> res_ids st' = res_ids st @ own
           \<and> distinct (res_ids st')
           \<and> set (own_anchor_id (env_kebab env) (env_registry env) r) \<subseteq> set own"
  using finish_element_own [OF assms(1,2)] finish_element_own_id [OF assms(1,3)]
  by blast

lemma resolve_anchors:
  shows "resolveRecursive env r st = (Inr p, st') \<Longrightarrow> distinct (res_ids st) \<Longrightarrow>
           env_linkable env \<Longrightarrow>
           distinct (linkable_anchor_ids (env_kebab env) (env_registry env) r)
           \<and> set (linkable_anchor_ids (env_kebab env) (env_registry env) r) \<subseteq> set (prose_ids p)"
    and "resolve_children env rs acc st = (Inr ps, st') \<Longrightarrow> distinct (res_ids st) \<Longrightarrow>
           env_linkable env \<Longrightarrow>
           (\<exists>new. ps = acc @ new
              \<and> distinct (concat (map (linkable_anchor_ids (env_kebab env) (env_registry env)) rs))
              \<and> set (concat (map (linkable_anchor_ids (env_kebab env) (env_registry env)) rs))
                   \<subseteq> set (concat (map prose_ids new)))"
proof (induction env r st and env rs acc st arbitrary: p st' and ps st'
    rule: resolveRecursive_resolve_children.induct)
  case (1 env rawElement st)
  let ?A = "linkable_anchor_ids (env_kebab env) (env_registry env)"
  from "1.prems"(1) obtain st1 where pre: "call_pre env rawElement st = (None, st1)"
    by (subst (asm) resolveRecursive.simps) (auto split: prod.splits option.splits)
  then have ids1: "res_ids st1 = res_ids st"
    by (rule call_pre_ids)
  with "1.prems"(2) have d1: "distinct (res_ids st1)"
    by simp
  show ?case
  proof (cases "raw_children rawElement")
    case None
    with "1.prems"(1) pre have fin: "finish_element env rawElement None st1 = (Inr p, st')"
      by (subst (asm) resolveRecursive.simps) simp
    from finish_element_anchor [OF fin d1 "1.prems"(3)] obtain own where
      o: "prose_ids p = kids_ids None @ own" "res_ids st' = res_ids st1 @ own"
      "set (own_anchor_id (env_kebab env) (env_registry env) rawElement) \<subseteq> set own"
      and dst: "distinct (res_ids st')"
      by blast
    have "length (own_anchor_id (env_kebab env) (env_registry env) rawElement) \<le> 1"
      by (simp add: own_anchor_id_def split: option.splits)
    then have "distinct (own_anchor_id (env_kebab env) (env_registry env) rawElement)"
      by (cases "own_anchor_id (env_kebab env) (env_registry env) rawElement") auto
    then show ?thesis
      using o None by (simp add: linkable_anchor_ids_eq [of _ _ rawElement] kids_ids_def)
  next
    case (Some cs)
    with "1.prems"(1) pre obtain kids st2 where
      kids: "resolve_children env cs [] st1 = (Inr kids, st2)"
      and fin: "finish_element env rawElement (Some kids) st2 = (Inr p, st')"
      by (subst (asm) resolveRecursive.simps) (auto split: prod.splits sum.splits)
    from "1.IH" [OF pre [symmetric] refl Some kids d1 "1.prems"(3)] obtain new0 where
      "kids = [] @ new0" "distinct (concat (map ?A cs))"
      "set (concat (map ?A cs)) \<subseteq> set (concat (map prose_ids new0))"
      by blast
    then have dk: "distinct (concat (map ?A cs))"
      and sk: "set (concat (map ?A cs)) \<subseteq> set (concat (map prose_ids kids))"
      by simp_all
    from resolve_ids(2) [OF kids d1] obtain new1 where
      "kids = [] @ new1" "res_ids st2 = res_ids st1 @ concat (map prose_ids new1)"
      and d2: "distinct (res_ids st2)"
      by blast
    then have k2: "res_ids st2 = res_ids st1 @ concat (map prose_ids kids)"
      by simp
    from finish_element_anchor [OF fin d2 "1.prems"(3)] obtain own where
      o: "prose_ids p = kids_ids (Some kids) @ own" "res_ids st' = res_ids st2 @ own"
      "set (own_anchor_id (env_kebab env) (env_registry env) rawElement) \<subseteq> set own"
      and dst: "distinct (res_ids st')"
      by blast
    from dst o(2) have dd: "distinct (res_ids st2 @ own)"
      by simp
    have "length (own_anchor_id (env_kebab env) (env_registry env) rawElement) \<le> 1"
      by (simp add: own_anchor_id_def split: option.splits)
    then have down: "distinct (own_anchor_id (env_kebab env) (env_registry env) rawElement)"
      by (cases "own_anchor_id (env_kebab env) (env_registry env) rawElement") auto
    from dd have "set (res_ids st2) \<inter> set own = {}"
      by simp
    then have "set (concat (map prose_ids kids)) \<inter> set own = {}"
      unfolding k2 by (simp add: Int_Un_distrib2)
    with sk o(3) have disj: "set (concat (map ?A cs))
        \<inter> set (own_anchor_id (env_kebab env) (env_registry env) rawElement) = {}"
      by blast
    from dk down disj sk o Some show ?thesis
      by (auto simp: linkable_anchor_ids_eq [of _ _ rawElement] kids_ids_def)
  qed
next
  case (2 env resolvedChildren st)
  then show ?case by simp
next
  case (3 env child rest resolvedChildren st)
  let ?A = "linkable_anchor_ids (env_kebab env) (env_registry env)"
  from "3.prems"(1) obtain c st1 where
    c: "resolveRecursive env child st = (Inr c, st1)"
    and r: "resolve_children env rest (resolvedChildren @ [c]) st1 = (Inr ps, st')"
    by (auto split: prod.splits sum.splits)
  from "3.IH"(1) [OF c "3.prems"(2,3)]
  have dc: "distinct (?A child)" and sc: "set (?A child) \<subseteq> set (prose_ids c)"
    by blast+
  from resolve_ids(1) [OF c "3.prems"(2)]
  have c1: "res_ids st1 = res_ids st @ prose_ids c" and d1: "distinct (res_ids st1)"
    by blast+
  from "3.IH"(2) [OF c [symmetric] refl r d1 "3.prems"(3)] obtain new where
    n: "ps = (resolvedChildren @ [c]) @ new" "distinct (concat (map ?A rest))"
    "set (concat (map ?A rest)) \<subseteq> set (concat (map prose_ids new))"
    by blast
  from resolve_ids(2) [OF r d1] obtain new2 where
    "ps = (resolvedChildren @ [c]) @ new2"
    "res_ids st' = res_ids st1 @ concat (map prose_ids new2)" "distinct (res_ids st')"
    by blast
  with n(1) have "distinct (res_ids st1 @ concat (map prose_ids new))"
    by simp
  then have "set (res_ids st1) \<inter> set (concat (map prose_ids new)) = {}"
    by simp
  then have "set (prose_ids c) \<inter> set (concat (map prose_ids new)) = {}"
    unfolding c1 by (simp add: Int_Un_distrib2)
  with sc n(3) have "set (?A child) \<inter> set (concat (map ?A rest)) = {}"
    by blast
  with dc sc n show ?case
    by (intro exI [of _ "c # new"]) auto
qed

lemma scan_find:
  "scan kebab ids names acc =
     (case find (\<lambda>name. kebab name \<in> set ids) names of
        Some name \<Rightarrow> Inl (DuplicateUniqueId name (kebab name))
      | None \<Rightarrow> Inr (fold Set_add (map kebab names) acc))"
  by (induction names arbitrary: acc) (simp_all split: option.splits)

lemma prescan_scan: "prescan kebab True ids r = scan kebab ids (anchor_names r) []"
  using prescan_walk(1) [OF refl refl, of kebab ids r "[]"]
  by (simp add: prescan_def scanned_def split: sum.splits)

text \<open>
  Claim C2, as the code has it. For every raw tree resolved with identity assignment
  requested: if the kebab-case identifier of a unique name of the tree is in the set of
  identifiers the caller supplies, \<^verbatim>\<open>resolveRawElement\<close> fails with the
  duplicate-unique-id error of the first such name during the pre-scan, before any hook is
  called and before any prose element is built (the trace is empty). Otherwise the
  pre-scan succeeds, whatever the unique names of the tree are among themselves: it
  compares with the caller's set only, and collects the identifiers. Two anchors of the
  tree with the same identifier are found later, in the recursive resolution, when
  \<^verbatim>\<open>createId\<close> refuses the second: a resolution that returns has given pairwise
  different identifiers to the anchors of linkable elements.
\<close>

theorem prescan_then_assign:
  "(\<forall>name. find (\<lambda>name. kebab name \<in> set (new_Set seed)) (anchor_names r) = Some name \<longrightarrow>
      resolveRawElement kebab reg r True pre post seed
        = (Inl (DuplicateUniqueId name (kebab name)), []))
   \<and> (find (\<lambda>name. kebab name \<in> set (new_Set seed)) (anchor_names r) = None \<longrightarrow>
        prescan kebab True (new_Set seed) r = Inr (fold Set_add (map kebab (anchor_names r)) []))
   \<and> (\<forall>res tr. resolveRawElement kebab reg r True pre post seed = (Inr res, tr) \<longrightarrow>
        distinct (linkable_anchor_ids kebab reg r))"
proof (intro conjI allI impI)
  fix name
  assume "find (\<lambda>name. kebab name \<in> set (new_Set seed)) (anchor_names r) = Some name"
  then have "prescan kebab True (new_Set seed) r = Inl (DuplicateUniqueId name (kebab name))"
    by (simp add: prescan_scan scan_find)
  then show "resolveRawElement kebab reg r True pre post seed
        = (Inl (DuplicateUniqueId name (kebab name)), [])"
    by (simp add: resolveRawElement_def Let_def)
next
  assume "find (\<lambda>name. kebab name \<in> set (new_Set seed)) (anchor_names r) = None"
  then show "prescan kebab True (new_Set seed) r = Inr (fold Set_add (map kebab (anchor_names r)) [])"
    by (simp add: prescan_scan scan_find)
next
  fix res tr
  assume "resolveRawElement kebab reg r True pre post seed = (Inr res, tr)"
  then obtain uniqueIds st p where
    run: "resolveRecursive \<lparr>env_kebab = kebab, env_registry = reg, env_linkable = True,
                      env_pre = pre, env_post = post, env_uniqueIds = uniqueIds\<rparr> r
            \<lparr>res_ids = new_Set seed, res_uniques = Map.empty, res_trace = []\<rparr> = (Inr p, st)"
    by (auto simp: resolveRawElement_def Let_def split: sum.splits prod.splits)
  have "distinct (res_ids \<lparr>res_ids = new_Set seed, res_uniques = Map.empty, res_trace = []\<rparr>)"
    using new_Set_distinct [of seed] by simp
  from resolve_anchors(1) [OF run this] show "distinct (linkable_anchor_ids kebab reg r)"
    by simp
qed

lemma two_anchors_prescan: "prescan kebabCase True [] two_anchors = Inr [''same-name'']"
  by (simp add: prescan_scan two_anchors_def Set_add_def kebabCase_examples)

lemma anchor_and_intro_run:
  "resolveRawElement kebabCase example_registry anchor_and_intro True None None None
     = (Inr \<lparr>resolved_proseElement =
               Prose ''mix'' JUndefined None
                 (Some [Prose ''paragraph'' JUndefined None None (Some ''my-anchor'') (Some ''myAnchor''),
                        Prose ''paragraph'' JUndefined None None (Some ''intro'') None])
                 None None,
             resolved_uniques =
               [''myAnchor'' \<mapsto>
                  Prose ''paragraph'' JUndefined None None (Some ''my-anchor'') (Some ''myAnchor'')],
             resolved_ids = [''my-anchor'', ''intro'']\<rparr>,
        [Constructed (Prose ''paragraph'' JUndefined None None None None),
         Constructed (Prose ''paragraph'' JUndefined None None None None),
         Constructed (Prose ''mix'' JUndefined None
                 (Some [Prose ''paragraph'' JUndefined None None (Some ''my-anchor'') (Some ''myAnchor''),
                        Prose ''paragraph'' JUndefined None None (Some ''intro'') None])
                 None None)])"
  by (simp add: resolve_eval anchor_and_intro_def example_registry_def paragraphSchema_def
      kebabCase_examples)

text \<open>
  The tree with two anchors \<open>sameName\<close>: with \<open>same-name\<close> supplied by the caller the
  call fails in the pre-scan, with an empty trace; with nothing supplied the pre-scan
  returns its one identifier. The tree with the anchor \<open>myAnchor\<close> resolves, and its
  anchor identifiers are distinct.
\<close>

theorem prescan_then_assign_witness:
  "find (\<lambda>name. kebabCase name \<in> set (new_Set (Some [''same-name''])))
      (anchor_names two_anchors) = Some ''sameName''
   \<and> resolveRawElement kebabCase example_registry two_anchors True
         (Some quiet_pre) (Some quiet_post) (Some [''same-name''])
       = (Inl (DuplicateUniqueId ''sameName'' ''same-name''), [])
   \<and> find (\<lambda>name. kebabCase name \<in> set (new_Set None)) (anchor_names two_anchors) = None
   \<and> prescan kebabCase True (new_Set None) two_anchors = Inr [''same-name'']
   \<and> linkable_anchor_ids kebabCase example_registry anchor_and_intro = [''my-anchor'']
   \<and> distinct (linkable_anchor_ids kebabCase example_registry anchor_and_intro)"
proof -
  have hit: "find (\<lambda>name. kebabCase name \<in> set (new_Set (Some [''same-name''])))
      (anchor_names two_anchors) = Some ''sameName''"
    and miss: "find (\<lambda>name. kebabCase name \<in> set (new_Set None)) (anchor_names two_anchors) = None"
    by (simp_all add: two_anchors_def new_Set_def Set_add_def kebabCase_examples)
  from prescan_then_assign [of kebabCase "Some [''same-name'']" two_anchors example_registry
      "Some quiet_pre" "Some quiet_post"] hit
  have "resolveRawElement kebabCase example_registry two_anchors True
         (Some quiet_pre) (Some quiet_post) (Some [''same-name''])
       = (Inl (DuplicateUniqueId ''sameName'' ''same-name''), [])"
    by (simp add: kebabCase_examples)
  moreover from prescan_then_assign [of kebabCase None two_anchors example_registry None None] miss
  have "prescan kebabCase True (new_Set None) two_anchors
          = Inr (fold Set_add (map kebabCase (anchor_names two_anchors)) [])"
    by blast
  then have "prescan kebabCase True (new_Set None) two_anchors = Inr [''same-name'']"
    by (simp add: two_anchors_def Set_add_def kebabCase_examples)
  moreover from prescan_then_assign [of kebabCase None anchor_and_intro example_registry None None]
    anchor_and_intro_run
  have "distinct (linkable_anchor_ids kebabCase example_registry anchor_and_intro)"
    by blast
  moreover have "linkable_anchor_ids kebabCase example_registry anchor_and_intro = [''my-anchor'']"
    by (simp add: anchor_and_intro_def own_anchor_id_def getSchema_def example_registry_def
        defineRegistryItem_def paragraphSchema_def mixSchema_def kebabCase_examples)
  ultimately show ?thesis
    using hit miss by blast
qed

text \<open>
  The claim as the specification states it fails on two anchors of one tree that the
  caller's set does not hold: the pre-scan passes them, and the call fails only when the
  second anchor is assigned its identifier, after the hooks have run on the root and on
  both paragraphs and after two prose elements were built.
\<close>

theorem duplicate_anchors_pass_prescan:
  "prescan kebabCase True (new_Set None) two_anchors = Inr [''same-name'']
   \<and> resolveRawElement kebabCase example_registry two_anchors True
         (Some quiet_pre) (Some quiet_post) None
       = (Inl (DuplicateUniqueId ''sameName'' ''same-name''),
          [PreCalled two_anchors,
           PreCalled (Raw ''h1'' ''P'' None ''paragraph'' JUndefined None None (Some ''sameName'')),
           Constructed (Prose ''paragraph'' JUndefined None None None None),
           PostCalled (Prose ''paragraph'' JUndefined None None (Some ''same-name'') (Some ''sameName'')),
           PreCalled (Raw ''h2'' ''P'' None ''paragraph'' JUndefined None None (Some ''sameName'')),
           Constructed (Prose ''paragraph'' JUndefined None None None None)])"
proof -
  have "resolveRawElement kebabCase example_registry two_anchors True
         (Some quiet_pre) (Some quiet_post) None
       = (Inl (DuplicateUniqueId ''sameName'' ''same-name''),
          [PreCalled two_anchors,
           PreCalled (Raw ''h1'' ''P'' None ''paragraph'' JUndefined None None (Some ''sameName'')),
           Constructed (Prose ''paragraph'' JUndefined None None None None),
           PostCalled (Prose ''paragraph'' JUndefined None None (Some ''same-name'') (Some ''sameName'')),
           PreCalled (Raw ''h2'' ''P'' None ''paragraph'' JUndefined None None (Some ''sameName'')),
           Constructed (Prose ''paragraph'' JUndefined None None None None)])"
    unfolding resolveRawElement_def
    by (simp add: new_Set_def two_anchors_prescan [simplified new_Set_def])
       (simp add: resolve_eval two_anchors_def example_registry_def paragraphSchema_def
          kebabCase_examples quiet_pre_def quiet_post_def)
  then show ?thesis
    using two_anchors_prescan by (simp add: new_Set_def)
qed

section \<open>Children: merged text and cloned anchors\<close>

lemma hash_12: "hash s (Integer 12) = Inr (hash12 s)"
  by (simp add: hash_def hash_units_def hash12_def)

lemma deepCloneRawElement_id: "deepCloneRawElement r = r"
proof (induction r)
  case (Raw h t s n d k c u)
  have "map_option (map deepCloneRawElement) c = c"
  proof (cases c)
    case None
    then show ?thesis by simp
  next
    case (Some cs)
    have "map deepCloneRawElement cs = cs"
      using Raw Some by (intro map_idI) auto
    with Some show ?thesis by simp
  qed
  then show ?case by simp
qed

lemma raw_setters [simp]:
  "raw_hash (set_hash v r) = v" "raw_data (set_hash v r) = raw_data r"
  "raw_tagName (set_hash v r) = raw_tagName r" "raw_slug (set_hash v r) = raw_slug r"
  "raw_schemaName (set_hash v r) = raw_schemaName r" "raw_storageKey (set_hash v r) = raw_storageKey r"
  "raw_children (set_hash v r) = raw_children r" "raw_uniqueName (set_hash v r) = raw_uniqueName r"
  "raw_hash (set_data w r) = raw_hash r" "raw_data (set_data w r) = w"
  "raw_tagName (set_data w r) = raw_tagName r" "raw_slug (set_data w r) = raw_slug r"
  "raw_schemaName (set_data w r) = raw_schemaName r" "raw_storageKey (set_data w r) = raw_storageKey r"
  "raw_children (set_data w r) = raw_children r" "raw_uniqueName (set_data w r) = raw_uniqueName r"
  "raw_hash (set_slug x r) = raw_hash r" "raw_data (set_slug x r) = raw_data r"
  "raw_tagName (set_slug x r) = raw_tagName r" "raw_slug (set_slug x r) = x"
  "raw_schemaName (set_slug x r) = raw_schemaName r" "raw_storageKey (set_slug x r) = raw_storageKey r"
  "raw_children (set_slug x r) = raw_children r" "raw_uniqueName (set_slug x r) = raw_uniqueName r"
  "raw_hash (set_uniqueName x r) = raw_hash r" "raw_data (set_uniqueName x r) = raw_data r"
  "raw_tagName (set_uniqueName x r) = raw_tagName r" "raw_slug (set_uniqueName x r) = raw_slug r"
  "raw_schemaName (set_uniqueName x r) = raw_schemaName r"
  "raw_storageKey (set_uniqueName x r) = raw_storageKey r"
  "raw_children (set_uniqueName x r) = raw_children r" "raw_uniqueName (set_uniqueName x r) = x"
  by (cases r; simp)+

lemma is_text_iff: "isRawProseElement_of r textSchema = is_text r"
  by (simp add: isRawProseElement_of_def textSchema_def is_text_def)

lemma jsxText_text_node: "jsxText s (hash12 s) = text_node s"
  by (simp add: jsxText_def text_node_def textSchema_def)

lemma normalize_other:
  "normalize_loop step acc (COther v # rest) =
     (case js_String v of
        Inl e \<Rightarrow> Inl e
      | Inr s \<Rightarrow>
          (case call_step step (text_node s) of
             Some e \<Rightarrow> Inl e
           | None \<Rightarrow>
               (case absorb acc s of
                  Inl e \<Rightarrow> Inl e
                | Inr acc1 \<Rightarrow> normalize_loop step acc1 rest)))"
  by (simp add: hash_12 jsxText_text_node at_last_def is_text_iff absorb_def with_text_def
      append_data_def split: option.splits sum.splits)

lemma normalize_raw:
  "normalize_loop step acc (CRaw r # rest) =
     (case call_step step r of
        Some e \<Rightarrow> Inl e
      | None \<Rightarrow> normalize_loop step (acc @ [r]) rest)"
  by (simp add: deepCloneRawElement_id)

lemma normalize_unique:
  "normalize_loop step acc (CUnique u # rest) =
     (case unique_rawElement u of
        None \<Rightarrow> Inl ReadOfUndefined
      | Some r \<Rightarrow>
          (case call_step step (unique_clone r) of
             Some e \<Rightarrow> Inl e
           | None \<Rightarrow> normalize_loop step (acc @ [unique_clone r]) rest))"
  by (simp add: deepCloneRawElement_id unique_clone_def Let_def split: option.splits)



lemma is_text_text_node [simp]: "is_text (text_node s)"
  by (simp add: is_text_def text_node_def)

lemma is_text_with_text [simp]: "is_text (with_text l s) = is_text l"
  by (simp add: is_text_def with_text_def)

lemma raw_data_with_text [simp]: "raw_data (with_text l s) = JStr s"
  by (simp add: with_text_def)

lemma raw_data_text_node [simp]: "raw_data (text_node s) = JStr s"
  by (simp add: text_node_def)

lemma same_but_text_with_text: "same_but_text (with_text l s) l"
  by (simp add: same_but_text_def with_text_def)

lemma absorb_cases:
  assumes "absorb acc s = Inr acc1"
  shows "(\<not> (acc \<noteq> [] \<and> is_text (last acc)) \<and> acc1 = acc @ [text_node s])
         \<or> (acc \<noteq> [] \<and> is_text (last acc)
             \<and> (\<exists>s0. js_String (raw_data (last acc)) = Inr s0
                   \<and> acc1 = butlast acc @ [with_text (last acc) (s0 @ s)]))"
  using assms by (auto simp: absorb_def split: if_splits sum.splits)








lemma normalize_append:
  "normalize_loop step acc (xs @ ys) =
     (case normalize_loop step acc xs of
        Inl e \<Rightarrow> Inl e
      | Inr acc1 \<Rightarrow> normalize_loop step acc1 ys)"
proof (induction xs arbitrary: acc)
  case Nil
  then show ?case by simp
next
  case (Cons x xs)
  show ?case
  proof (cases x)
    case (CRaw r)
    with Cons show ?thesis
      by (simp add: normalize_raw del: normalize_loop.simps split: option.splits)
  next
    case (CUnique u)
    with Cons show ?thesis
      by (simp add: normalize_unique del: normalize_loop.simps split: option.splits)
  next
    case (COther v)
    with Cons show ?thesis
      by (simp add: normalize_other del: normalize_loop.simps split: option.splits sum.splits)
  qed
qed

lemma normalize_other_returns:
  assumes "normalize_loop step acc (COther v # rest) = Inr zs"
  shows "\<exists>s acc1. absorb acc s = Inr acc1 \<and> normalize_loop step acc1 rest = Inr zs"
  using assms
  by (auto simp: normalize_other simp del: normalize_loop.simps split: option.splits sum.splits)

lemma absorb_length: "absorb acc s = Inr acc1 \<Longrightarrow> length acc \<le> length acc1"
  by (auto dest!: absorb_cases)

lemma absorb_butlast: "absorb acc s = Inr acc1 \<Longrightarrow> take (length acc - 1) acc1 = butlast acc"
  by (auto dest!: absorb_cases simp: butlast_conv_take)

lemma normalize_keeps_butlast:
  "normalize_loop step acc xs = Inr zs \<Longrightarrow>
     length acc \<le> length zs \<and> take (length acc - 1) zs = butlast acc"
proof (induction xs arbitrary: acc)
  case Nil
  then show ?case by (simp add: butlast_conv_take)
next
  case (Cons x xs)
  have grow: "\<And>acc1. normalize_loop step acc1 xs = Inr zs \<Longrightarrow> length acc \<le> length acc1 \<Longrightarrow>
      take (length acc - 1) acc1 = butlast acc \<Longrightarrow>
      length acc \<le> length zs \<and> take (length acc - 1) zs = butlast acc"
  proof -
    fix acc1
    assume r: "normalize_loop step acc1 xs = Inr zs" and l: "length acc \<le> length acc1"
      and t: "take (length acc - 1) acc1 = butlast acc"
    from Cons.IH [OF r] have l1: "length acc1 \<le> length zs"
      and t1: "take (length acc1 - 1) zs = butlast acc1"
      by simp_all
    have "take (length acc - 1) zs = take (length acc - 1) (take (length acc1 - 1) zs)"
      using l by (simp add: min_def)
    also have "\<dots> = take (length acc - 1) (butlast acc1)"
      by (simp only: t1)
    also have "\<dots> = take (length acc - 1) acc1"
      using l by (simp add: butlast_conv_take min_def)
    finally show "length acc \<le> length zs \<and> take (length acc - 1) zs = butlast acc"
      using l l1 t by simp
  qed
  show ?case
  proof (cases x)
    case (CRaw r)
    with Cons.prems have "normalize_loop step (acc @ [r]) xs = Inr zs"
      by (simp add: normalize_raw del: normalize_loop.simps split: option.splits)
    from grow [OF this] show ?thesis
      by (simp add: butlast_conv_take)
  next
    case (CUnique u)
    with Cons.prems obtain r where "normalize_loop step (acc @ [unique_clone r]) xs = Inr zs"
      by (auto simp: normalize_unique simp del: normalize_loop.simps split: option.splits)
    from grow [OF this] show ?thesis
      by (simp add: butlast_conv_take)
  next
    case (COther v)
    with Cons.prems have "normalize_loop step acc (COther v # xs) = Inr zs"
      by (simp del: normalize_loop.simps)
    from normalize_other_returns [OF this] obtain s acc1 where a: "absorb acc s = Inr acc1"
      and "normalize_loop step acc1 xs = Inr zs"
      by blast
    from grow [OF this(2) absorb_length [OF a] absorb_butlast [OF a]] show ?thesis .
  qed
qed

lemma normalize_keeps_appended:
  assumes "normalize_loop step (acc @ [x]) xs = Inr zs"
  shows "length acc < length zs \<and> take (length acc) zs = acc
         \<and> same_but_text (zs ! length acc) x
         \<and> (\<not> is_text x \<longrightarrow> zs ! length acc = x)"
  using assms
proof (induction xs arbitrary: x)
  case Nil
  then show ?case by (auto simp: same_but_text_def)
next
  case (Cons y ys)
  from normalize_keeps_butlast [OF Cons.prems]
  have len: "length acc < length zs" and pre: "take (length acc) zs = acc"
    by simp_all
  have appended: "\<And>c. normalize_loop step ((acc @ [x]) @ [c]) ys = Inr zs \<Longrightarrow> zs ! length acc = x"
  proof -
    fix c
    assume "normalize_loop step ((acc @ [x]) @ [c]) ys = Inr zs"
    from normalize_keeps_butlast [OF this]
    have "length acc + 1 < length zs" "take (length acc + 1) zs = acc @ [x]"
      by (simp_all add: butlast_append)
    then have "(take (length acc + 1) zs) ! length acc = x"
      by simp
    then show "zs ! length acc = x"
      by simp
  qed
  show ?case
  proof (cases y)
    case (CRaw r)
    with Cons.prems have "normalize_loop step ((acc @ [x]) @ [r]) ys = Inr zs"
      by (simp add: normalize_raw del: normalize_loop.simps split: option.splits)
    from appended [OF this] len pre show ?thesis
      by (simp add: same_but_text_def)
  next
    case (CUnique u)
    with Cons.prems obtain r where "normalize_loop step ((acc @ [x]) @ [unique_clone r]) ys = Inr zs"
      by (auto simp: normalize_unique simp del: normalize_loop.simps split: option.splits)
    from appended [OF this] len pre show ?thesis
      by (simp add: same_but_text_def)
  next
    case (COther v)
    with Cons.prems have "normalize_loop step (acc @ [x]) (COther v # ys) = Inr zs"
      by (simp del: normalize_loop.simps)
    from normalize_other_returns [OF this] obtain s acc1 where b: "absorb (acc @ [x]) s = Inr acc1"
      and a: "normalize_loop step acc1 ys = Inr zs"
      by blast
    show ?thesis
    proof (cases "is_text x")
      case True
      with absorb_cases [OF b] obtain s0 where "acc1 = acc @ [with_text x (s0 @ s)]"
        by auto
      with a have "normalize_loop step (acc @ [with_text x (s0 @ s)]) ys = Inr zs"
        by simp
      from Cons.IH [OF this] True len pre show ?thesis
        by (simp add: same_but_text_def with_text_def)
    next
      case False
      with absorb_cases [OF b] have "acc1 = (acc @ [x]) @ [text_node s]"
        by auto
      with a have "normalize_loop step ((acc @ [x]) @ [text_node s]) ys = Inr zs"
        by simp
      from appended [OF this] len pre show ?thesis
        by (simp add: same_but_text_def)
    qed
  qed
qed

lemma normalizeChildren_Array:
  "normalizeChildren (Array xs) step = Inr (Some zs) \<longleftrightarrow> normalize_loop step [] xs = Inr zs"
  by (simp add: normalizeChildren_def split: sum.splits)

lemma unique_clone_fields:
  "raw_uniqueName (unique_clone r) = None"
  "raw_slug (unique_clone r) = raw_uniqueName r"
  "raw_hash (unique_clone r) = raw_hash r"
  "raw_tagName (unique_clone r) = raw_tagName r"
  "raw_schemaName (unique_clone r) = raw_schemaName r"
  "raw_data (unique_clone r) = raw_data r"
  "raw_storageKey (unique_clone r) = raw_storageKey r"
  "raw_children (unique_clone r) = raw_children r"
  by (simp_all add: unique_clone_def)

lemma unique_child_position:
  assumes u: "unique_rawElement u = Some r"
    and ys: "normalizeChildren (Array pre) step = Inr (Some ys)"
    and zs: "normalizeChildren (Array (pre @ CUnique u # post)) step = Inr (Some zs)"
  shows "length ys < length zs \<and> take (length ys) zs = ys
         \<and> same_but_text (zs ! length ys) (unique_clone r)
         \<and> (raw_schemaName r \<noteq> ''text'' \<longrightarrow> zs ! length ys = unique_clone r)"
proof -
  from ys have y: "normalize_loop step [] pre = Inr ys"
    by (simp add: normalizeChildren_Array)
  from zs have "normalize_loop step [] (pre @ CUnique u # post) = Inr zs"
    by (simp add: normalizeChildren_Array)
  with y have "normalize_loop step ys (CUnique u # post) = Inr zs"
    by (simp add: normalize_append del: normalize_loop.simps)
  with u have "normalize_loop step (ys @ [unique_clone r]) post = Inr zs"
    by (simp add: normalize_unique del: normalize_loop.simps split: option.splits)
  from normalize_keeps_appended [OF this] show ?thesis
    by (simp add: is_text_def unique_clone_fields)
qed

text \<open>
  Claim C7. For every unique among the children that holds a raw element, the child put
  out for it is a clone of that element in which the unique name is absent and the slug
  is the unique name the element had (the name of the unique, when the element carries
  it); all other fields are the element's. The child stands right after the children put
  out for what precedes the unique, and later children change nothing of it, unless the
  element is of the text schema: then a string that follows is merged into its data and
  hash, and only these.
\<close>

theorem normalize_unique_clone:
  "(unique_rawElement u = Some r \<and> call_step step (unique_clone r) = None \<longrightarrow>
      normalize_loop step acc (CUnique u # rest)
        = normalize_loop step (acc @ [unique_clone r]) rest)
   \<and> raw_uniqueName (unique_clone r) = None
   \<and> raw_slug (unique_clone r) = raw_uniqueName r
   \<and> raw_hash (unique_clone r) = raw_hash r
   \<and> raw_tagName (unique_clone r) = raw_tagName r
   \<and> raw_schemaName (unique_clone r) = raw_schemaName r
   \<and> raw_data (unique_clone r) = raw_data r
   \<and> raw_storageKey (unique_clone r) = raw_storageKey r
   \<and> raw_children (unique_clone r) = raw_children r
   \<and> (unique_rawElement u = Some r
        \<and> normalizeChildren (Array pre) step = Inr (Some ys)
        \<and> normalizeChildren (Array (pre @ CUnique u # post)) step = Inr (Some zs) \<longrightarrow>
          length ys < length zs
          \<and> raw_uniqueName (zs ! length ys) = None
          \<and> raw_slug (zs ! length ys) = raw_uniqueName r
          \<and> same_but_text (zs ! length ys) (unique_clone r)
          \<and> (raw_schemaName r \<noteq> ''text'' \<longrightarrow> zs ! length ys = unique_clone r))
   \<and> (raw_uniqueName r = Some (unique_name u) \<longrightarrow>
          raw_slug (unique_clone r) = Some (unique_name u))
   \<and> normalizeChildren (Single (CUnique u)) step = normalizeChildren (Array [CUnique u]) step"
proof -
  have one: "unique_rawElement u = Some r \<and> call_step step (unique_clone r) = None \<longrightarrow>
      normalize_loop step acc (CUnique u # rest)
        = normalize_loop step (acc @ [unique_clone r]) rest"
    by (simp add: normalize_unique del: normalize_loop.simps)
  have pos: "unique_rawElement u = Some r
        \<and> normalizeChildren (Array pre) step = Inr (Some ys)
        \<and> normalizeChildren (Array (pre @ CUnique u # post)) step = Inr (Some zs) \<longrightarrow>
          length ys < length zs
          \<and> raw_uniqueName (zs ! length ys) = None
          \<and> raw_slug (zs ! length ys) = raw_uniqueName r
          \<and> same_but_text (zs ! length ys) (unique_clone r)
          \<and> (raw_schemaName r \<noteq> ''text'' \<longrightarrow> zs ! length ys = unique_clone r)"
  proof
    assume a: "unique_rawElement u = Some r
        \<and> normalizeChildren (Array pre) step = Inr (Some ys)
        \<and> normalizeChildren (Array (pre @ CUnique u # post)) step = Inr (Some zs)"
    then have a1: "unique_rawElement u = Some r"
      and a2: "normalizeChildren (Array pre) step = Inr (Some ys)"
      and a3: "normalizeChildren (Array (pre @ CUnique u # post)) step = Inr (Some zs)"
      by simp_all
    have "length ys < length zs \<and> take (length ys) zs = ys
         \<and> same_but_text (zs ! length ys) (unique_clone r)
         \<and> (raw_schemaName r \<noteq> ''text'' \<longrightarrow> zs ! length ys = unique_clone r)"
      by (rule unique_child_position [OF a1 a2 a3])
    then show "length ys < length zs
          \<and> raw_uniqueName (zs ! length ys) = None
          \<and> raw_slug (zs ! length ys) = raw_uniqueName r
          \<and> same_but_text (zs ! length ys) (unique_clone r)
          \<and> (raw_schemaName r \<noteq> ''text'' \<longrightarrow> zs ! length ys = unique_clone r)"
      by (simp add: same_but_text_def unique_clone_fields)
  qed
  have named: "raw_uniqueName r = Some (unique_name u) \<longrightarrow>
          raw_slug (unique_clone r) = Some (unique_name u)"
    by (simp add: unique_clone_fields)
  have single: "normalizeChildren (Single (CUnique u)) step
      = normalizeChildren (Array [CUnique u]) step"
    by (simp add: normalizeChildren_def del: normalize_loop.simps)
  show ?thesis
    by (intro conjI one pos named single unique_clone_fields)
qed

text \<open>
  The children \<open>Start\<close>, a unique, \<open>End\<close>: three children, the second the clone with
  the slug \<open>mixedUnique\<close> and no unique name.
\<close>

theorem normalize_unique_clone_witness:
  "normalizeChildren (Array [COther (JStr ''Start'')]) None = Inr (Some [text_node ''Start''])
   \<and> normalizeChildren (Array ([COther (JStr ''Start'')] @ CUnique bold_unique # [COther (JStr ''End'')])) None
       = Inr (Some [text_node ''Start'',
                    Raw ''bold-hash'' ''Bold'' (Some ''mixedUnique'') ''bold'' JUndefined None None None,
                    text_node ''End''])
   \<and> [text_node ''Start'',
        Raw ''bold-hash'' ''Bold'' (Some ''mixedUnique'') ''bold'' JUndefined None None None,
        text_node ''End''] ! length [text_node ''Start'']
       = unique_clone (Raw ''bold-hash'' ''Bold'' None ''bold'' JUndefined None None (Some ''mixedUnique''))
   \<and> raw_slug (unique_clone (Raw ''bold-hash'' ''Bold'' None ''bold'' JUndefined None None
                  (Some ''mixedUnique''))) = Some (unique_name bold_unique)"
proof -
  let ?r = "Raw ''bold-hash'' ''Bold'' None ''bold'' JUndefined None None (Some ''mixedUnique'')"
  let ?ys = "[text_node ''Start'']"
  let ?zs = "[text_node ''Start'',
        Raw ''bold-hash'' ''Bold'' (Some ''mixedUnique'') ''bold'' JUndefined None None None,
        text_node ''End'']"
  have bound: "unique_rawElement bold_unique = Some ?r"
    and name: "raw_uniqueName ?r = Some (unique_name bold_unique)"
    and schema: "raw_schemaName ?r \<noteq> ''text''"
    by (simp_all add: bold_unique_def)
  have clone: "unique_clone ?r
      = Raw ''bold-hash'' ''Bold'' (Some ''mixedUnique'') ''bold'' JUndefined None None None"
    by (simp add: unique_clone_def)
  have ys: "normalizeChildren (Array [COther (JStr ''Start'')]) None = Inr (Some ?ys)"
    by (simp add: normalizeChildren_def normalize_other call_step_def absorb_def
        del: normalize_loop.simps(2-4))
  have zs: "normalizeChildren
      (Array ([COther (JStr ''Start'')] @ CUnique bold_unique # [COther (JStr ''End'')])) None
       = Inr (Some ?zs)"
    by (simp add: normalizeChildren_def normalize_other normalize_unique call_step_def absorb_def
        bound clone is_text_def del: normalize_loop.simps(2-4))
  from normalize_unique_clone [of bold_unique ?r None "[]" "[]" "[COther (JStr ''Start'')]" ?ys
      "[COther (JStr ''End'')]" ?zs] bound ys zs schema
  have "?zs ! length ?ys = unique_clone ?r"
    by blast
  moreover from normalize_unique_clone [of bold_unique ?r None "[]" "[]" "[COther (JStr ''Start'')]" ?ys
      "[COther (JStr ''End'')]" ?zs] name
  have "raw_slug (unique_clone ?r) = Some (unique_name bold_unique)"
    by blast
  ultimately show ?thesis
    using ys zs by simp
qed

section \<open>\<^verbatim>\<open>fillStorage\<close> and the entries already there\<close>

text \<open>A call starts a generator only for a key whose value is falsy at that moment.\<close>

lemma wanted_generator_falsy:
  "wanted_generator args storage el = Some (key, g) \<Longrightarrow> \<not> truthy (storage_get storage key)"
  by (auto simp: wanted_generator_def split: if_splits option.splits)

lemma started_falsy:
  shows "t \<in> set (createStorageFor args storage el) \<Longrightarrow> \<not> truthy (storage_get storage (task_key t))"
    and "t \<in> set (after_storage args storage el) \<Longrightarrow> \<not> truthy (storage_get storage (task_key t))"
proof (induction args storage el and args storage el rule: createStorageFor_after_storage.induct)
  case (1 args storage proseElement)
  show ?case
  proof (cases "wanted_generator args storage proseElement")
    case None
    with "1.prems" "1.IH" show ?thesis
      by (simp add: createStorageFor.simps)
  next
    case (Some kg)
    obtain key g where kg: "kg = (key, g)"
      by (cases kg)
    with Some "1.prems" have "task_key t = key"
      by (auto simp: createStorageFor.simps split: sum.splits)
    with wanted_generator_falsy [of args storage proseElement key g] Some kg show ?thesis
      by simp
  qed
next
  case (2 args storage proseElement)
  show ?case
  proof (cases "call_step (fill_step args) proseElement")
    case (Some e)
    with "2.prems" show ?thesis
      by (simp add: after_storage.simps)
  next
    case None
    show ?thesis
    proof (cases "prose_children proseElement")
      case no_children: None
      with None "2.prems" show ?thesis
        by (simp add: after_storage.simps)
    next
      case (Some cs)
      with None "2.prems" obtain c where "c \<in> set cs"
        and "t \<in> set (createStorageFor args storage c)"
        by (auto simp: after_storage.simps)
      with "2.IH" [OF None Some] show ?thesis
        by blast
    qed
  qed
qed

lemma kept_falsy:
  "kept storage0 storage \<Longrightarrow> \<not> truthy (storage_get storage key) \<Longrightarrow>
     \<not> truthy (storage_get storage0 key)"
  by (auto simp: kept_def storage_get_def)

lemma run_keeps:
  "kept storage0 storage \<Longrightarrow> harmless storage0 pending \<Longrightarrow>
     run args schedule (storage, pending) = (storage', pending') \<Longrightarrow>
     kept storage0 storage' \<and> harmless storage0 pending'"
proof (induction schedule arbitrary: storage pending)
  case Nil
  then show ?case by simp
next
  case (Cons i schedule)
  show ?case
  proof (cases "i < length pending")
    case False
    with Cons show ?thesis by simp
  next
    case True
    obtain el key v where t: "pending ! i = Awaiting el key v"
      by (cases "pending ! i")
    let ?storage1 = "storage(key \<mapsto> v)"
    let ?pending1 = "take i pending @ drop (Suc i) pending @ after_storage args ?storage1 el"
    from True Cons.prems(2) t have falsy: "\<not> truthy (storage_get storage0 key)"
      by (auto simp: harmless_def dest!: nth_mem)
    with Cons.prems(1) have k1: "kept storage0 ?storage1"
      by (auto simp: kept_def)
    have "harmless storage0 ?pending1"
      unfolding harmless_def
    proof
      fix t' assume "t' \<in> set ?pending1"
      then consider "t' \<in> set (take i pending)" | "t' \<in> set (drop (Suc i) pending)"
        | "t' \<in> set (after_storage args ?storage1 el)"
        by auto
      then show "\<not> truthy (storage_get storage0 (task_key t'))"
      proof cases
        case 1
        then have "t' \<in> set pending" by (rule in_set_takeD)
        with Cons.prems(2) show ?thesis by (simp add: harmless_def)
      next
        case 2
        then have "t' \<in> set pending" by (rule in_set_dropD)
        with Cons.prems(2) show ?thesis by (simp add: harmless_def)
      next
        case 3
        from started_falsy(2) [OF this] k1 show ?thesis
          by (rule kept_falsy [rotated])
      qed
    qed
    moreover from Cons.prems(3) True t
    have "run args schedule (?storage1, ?pending1) = (storage', pending')"
      by (simp add: Let_def del: fun_upd_apply)
    ultimately show ?thesis
      using k1 by (intro Cons.IH)
  qed
qed

lemma fillStorage_kept:
  assumes "truthy (storage_get storage key)"
  shows "fst (fillStorage args storage proseElement schedule) key = storage key"
proof -
  obtain storage' pending' where r: "fillStorage args storage proseElement schedule = (storage', pending')"
    by (cases "fillStorage args storage proseElement schedule")
  have "kept storage storage"
    by (simp add: kept_def)
  moreover have "harmless storage (createStorageFor args storage proseElement)"
    using started_falsy(1) by (auto simp: harmless_def)
  moreover from r have "run args schedule (storage, createStorageFor args storage proseElement)
      = (storage', pending')"
    by (simp add: fillStorage_def)
  ultimately have "kept storage storage' \<and> harmless storage pending'"
    by (rule run_keeps)
  then have "kept storage storage'"
    by (rule conjunct1)
  with assms r show ?thesis
    by (simp add: kept_def)
qed

lemmas fill_eval =
  fillStorage_def createStorageFor.simps after_storage.simps wanted_generator_def
  truthy_string_def storage_get_def call_step_def image_args_def image_dimensions_def
  cat_image_def dog_image_def two_images_def Let_def

text \<open>
  Claim C4, as the code has it. For every storage, tree, table of generators and
  \<^verbatim>\<open>step\<close> callback, and in whatever order the concurrent calls go on: a key whose value
  is truthy when \<^verbatim>\<open>fillStorage\<close> is called has the same value at every moment of the run,
  and so when the call completes. Consequently a second run, from the storage the first
  left, on the same tree, with any table of generators and in any order, changes no truthy
  value that the first run left.
\<close>

theorem fillStorage_keeps_truthy:
  "(truthy (storage_get storage key) \<longrightarrow>
      fst (fillStorage args storage proseElement schedule) key = storage key)
   \<and> (truthy (storage_get (fst (fillStorage args storage proseElement schedule)) key) \<longrightarrow>
        fst (fillStorage args2 (fst (fillStorage args storage proseElement schedule))
               proseElement schedule2) key
          = fst (fillStorage args storage proseElement schedule) key)"
  using fillStorage_kept by blast

text \<open>
  A storage that holds \<^verbatim>\<open>null\<close> under \<open>cat.jpg\<close>: the key is present, the value is falsy,
  and \<^verbatim>\<open>fillStorage\<close> completes having replaced it with what the generator returned.
\<close>

theorem fillStorage_overwrites_falsy:
  "[''cat.jpg'' \<mapsto> JNull] ''cat.jpg'' = Some JNull
   \<and> fst (fillStorage image_args [''cat.jpg'' \<mapsto> JNull] cat_image [0]) ''cat.jpg''
       = Some (JObj [(''width'', num 800), (''height'', num 600)])
   \<and> snd (fillStorage image_args [''cat.jpg'' \<mapsto> JNull] cat_image [0]) = []"
  by (simp add: fill_eval)

text \<open>
  A storage that holds dimensions under \<open>cat.jpg\<close>: the run over both images completes,
  keeps them, and writes those of \<open>dog.jpg\<close>, which a second run keeps.
\<close>

theorem fillStorage_keeps_truthy_witness:
  "truthy (storage_get [''cat.jpg'' \<mapsto> JObj [(''width'', num 999), (''height'', num 999)]] ''cat.jpg'')
   \<and> fst (fillStorage image_args
             [''cat.jpg'' \<mapsto> JObj [(''width'', num 999), (''height'', num 999)]]
             two_images [0]) ''cat.jpg''
       = Some (JObj [(''width'', num 999), (''height'', num 999)])
   \<and> fst (fillStorage image_args
             [''cat.jpg'' \<mapsto> JObj [(''width'', num 999), (''height'', num 999)]]
             two_images [0]) ''dog.jpg''
       = Some (JObj [(''width'', num 800), (''height'', num 600)])
   \<and> snd (fillStorage image_args
             [''cat.jpg'' \<mapsto> JObj [(''width'', num 999), (''height'', num 999)]]
             two_images [0]) = []
   \<and> fst (fillStorage image_args
             (fst (fillStorage image_args
                [''cat.jpg'' \<mapsto> JObj [(''width'', num 999), (''height'', num 999)]]
                two_images [0]))
             two_images []) ''dog.jpg''
       = Some (JObj [(''width'', num 800), (''height'', num 600)])"
proof -
  let ?s = "[''cat.jpg'' \<mapsto> JObj [(''width'', num 999), (''height'', num 999)]]"
  have t: "truthy (storage_get ?s ''cat.jpg'')"
    by (simp add: storage_get_def)
  have first: "fillStorage image_args ?s two_images [0]
      = (?s(''dog.jpg'' \<mapsto> JObj [(''width'', num 800), (''height'', num 600)]), [])"
    by (simp add: fill_eval)
  then have t2: "truthy (storage_get (fst (fillStorage image_args ?s two_images [0])) ''dog.jpg'')"
    by (simp add: storage_get_def)
  from fillStorage_keeps_truthy [of ?s "''cat.jpg''" image_args two_images "[0]"] t
  have "fst (fillStorage image_args ?s two_images [0]) ''cat.jpg'' = ?s ''cat.jpg''"
    by blast
  then have kept_cat: "fst (fillStorage image_args ?s two_images [0]) ''cat.jpg''
      = Some (JObj [(''width'', num 999), (''height'', num 999)])"
    by simp
  from fillStorage_keeps_truthy [of ?s "''dog.jpg''" image_args two_images "[0]" image_args "[]"] t2
  have "fst (fillStorage image_args (fst (fillStorage image_args ?s two_images [0])) two_images [])
          ''dog.jpg''
      = fst (fillStorage image_args ?s two_images [0]) ''dog.jpg''"
    by blast
  with first have again: "fst (fillStorage image_args (fst (fillStorage image_args ?s two_images [0]))
          two_images []) ''dog.jpg''
      = Some (JObj [(''width'', num 800), (''height'', num 600)])"
    by simp
  from first have dog: "fst (fillStorage image_args ?s two_images [0]) ''dog.jpg''
       = Some (JObj [(''width'', num 800), (''height'', num 600)])"
    and finished: "snd (fillStorage image_args ?s two_images [0]) = []"
    by simp_all
  from t kept_cat dog finished again show ?thesis
    by (intro conjI)
qed

end
